theory Spec2Isabelle
  imports Main
begin

section \<open>Package discovery of \<open>setup.py\<close>\<close>

text \<open>
  The script under verification:
  \<^verbatim>\<open>
  def list_packages(src_path=""):
      for root, _, _ in os.walk(os.path.join(src_path, "indigo-stubs")):
          yield ".".join(os.path.relpath(root, src_path).split(os.path.sep))

  setup(name='indigo-stubs', version='3.0.0', ..., install_requires=[],
        packages=list(list_packages()), package_data={"": ["*.pyi"]})
  \<close>
  \<open>list_packages\<close> is three lines over five library functions: \<open>os.path.join\<close>,
  \<open>os.walk\<close>, \<open>os.path.relpath\<close>, \<open>str.split\<close> and \<open>str.join\<close>. Each is embedded
  below after its definition in CPython 3.11 (\<open>posixpath.py\<close>, \<open>genericpath.py\<close>,
  \<open>os.py\<close>) on a POSIX platform, where \<open>os.path.sep\<close> is \<open>/\<close>. The file system is a
  tree of plain files and directories without symbolic links; \<open>os.scandir\<close> may fail on
  a directory. The recursion of \<open>os.walk\<close> is bounded by the recursion limit of the
  interpreter. A string of the model is a path as the operating system receives it, a
  sequence of bytes.
\<close>

subsection \<open>Strings\<close>

definition sep :: char where
  "sep = CHR ''/''"

definition nul :: char where
  "nul = CHR 0x00"

text \<open>\<open>s.split(c)\<close> for a one-character separator: never the empty list.\<close>

fun split_str :: "char \<Rightarrow> string \<Rightarrow> string list" where
  "split_str c [] = [[]]"
| "split_str c (x # xs) =
     (if x = c then [] # split_str c xs
      else (case split_str c xs of [] \<Rightarrow> [[x]] | w # ws \<Rightarrow> (x # w) # ws))"

text \<open>\<open>d.join(parts)\<close>.\<close>

fun join_str :: "string \<Rightarrow> string list \<Rightarrow> string" where
  "join_str d [] = []"
| "join_str d [p] = p"
| "join_str d (p # q # ps) = p @ d @ join_str d (q # ps)"

definition startswith :: "string \<Rightarrow> string \<Rightarrow> bool" where
  "startswith s p = (take (length p) s = p)"

definition endswith :: "string \<Rightarrow> string \<Rightarrow> bool" where
  "endswith s p = (drop (length s - length p) s = p \<and> length p \<le> length s)"

subsection \<open>Errors and the result of a generator\<close>

text \<open>
  \<open>FileNotFoundError\<close>, \<open>NotADirectoryError\<close> and \<open>PermissionError\<close> are subclasses of
  \<open>OSError\<close>; \<open>ValueError\<close> and \<open>RecursionError\<close> are not.
\<close>

datatype error =
  ValueError | RecursionError | FileNotFoundError | NotADirectoryError | PermissionError

fun is_OSError :: "error \<Rightarrow> bool" where
  "is_OSError ValueError = False"
| "is_OSError RecursionError = False"
| "is_OSError FileNotFoundError = True"
| "is_OSError NotADirectoryError = True"
| "is_OSError PermissionError = True"

text \<open>
  A generator run to its end: the items it yielded, in order, and the exception that
  ended the iteration, if one did.
\<close>

type_synonym 'a generated = "'a list \<times> error option"

definition map_gen :: "('a \<Rightarrow> 'b) \<Rightarrow> 'a generated \<Rightarrow> 'b generated" where
  "map_gen h g = (map h (fst g), snd g)"

text \<open>
  \<open>for x in xs: yield from f(x)\<close>: the generators one after the other, up to the first
  that ends with an exception.
\<close>

fun yield_from_each :: "('a \<Rightarrow> 'b generated) \<Rightarrow> 'a list \<Rightarrow> 'b generated" where
  "yield_from_each f [] = ([], None)"
| "yield_from_each f (x # xs) =
     (case f x of
        (ys, Some err) \<Rightarrow> (ys, Some err)
      | (ys, None) \<Rightarrow> (case yield_from_each f xs of (zs, err) \<Rightarrow> (ys @ zs, err)))"

lemma yield_from_each_cong [fundef_cong]:
  "xs = ys \<Longrightarrow> (\<And>x. x \<in> set ys \<Longrightarrow> f x = g x) \<Longrightarrow> yield_from_each f xs = yield_from_each g ys"
  by (induction ys arbitrary: xs) auto

subsection \<open>The file system\<close>

text \<open>
  A directory carries a flag, whether \<open>os.scandir\<close> succeeds on it (whether it can be
  listed), and its entries in the order in which the operating system enumerates them.
\<close>

datatype node = File | Dir bool "(string \<times> node) list"

text \<open>
  The environment of a call: the file system, the working directory as \<open>os.getcwd()\<close>
  returns it, and the number of levels below its top directory that the recursion limit
  of the interpreter leaves to \<open>os.walk\<close> (some 995 for the default limit of 1000 and a
  call from the top level of a script).
\<close>

record env =
  fs_root :: node
  cwd :: string
  depth_limit :: nat

fun is_dir :: "node \<Rightarrow> bool" where
  "is_dir File = False"
| "is_dir (Dir r es) = True"

text \<open>
  Path resolution by the operating system, on the components of an absolute path. The
  first argument is the directory reached so far, below its ancestors; \<open>..\<close> at the
  root stays at the root. A relative path starts at the working directory of the
  process. Python refuses a path that contains the NUL character with \<open>ValueError\<close>
  before the operating system sees it.
\<close>

fun descend :: "node list \<Rightarrow> string list \<Rightarrow> error + node" where
  "descend [] cs = Inl FileNotFoundError"
| "descend (n # up) [] = Inr n"
| "descend (File # up) (c # cs) = Inl NotADirectoryError"
| "descend (Dir r es # up) (c # cs) =
     (if c = [] \<or> c = ''.'' then descend (Dir r es # up) cs
      else if c = ''..'' then descend (if up = [] then [Dir r es] else up) cs
      else (case map_of es c of
              None \<Rightarrow> Inl FileNotFoundError
            | Some m \<Rightarrow> descend (m # Dir r es # up) cs))"

definition os_lookup :: "env \<Rightarrow> string \<Rightarrow> error + node" where
  "os_lookup e p =
     (if nul \<in> set p then Inl ValueError
      else if p = [] then Inl FileNotFoundError
      else descend [fs_root e]
             (split_str sep (if startswith p [sep] then p else cwd e @ [sep] @ p)))"

text \<open>\<open>os.scandir\<close> of a directory entry, and of a path.\<close>

fun scandir_node :: "node \<Rightarrow> error + (string \<times> node) list" where
  "scandir_node File = Inl NotADirectoryError"
| "scandir_node (Dir r es) = (if r then Inr es else Inl PermissionError)"

definition scandir :: "env \<Rightarrow> string \<Rightarrow> error + (string \<times> node) list" where
  "scandir e p =
     (case os_lookup e p of Inl err \<Rightarrow> Inl err | Inr n \<Rightarrow> scandir_node n)"

subsection \<open>\<open>posixpath\<close>\<close>

text \<open>
  \<^verbatim>\<open>
  def join(a, *p):
      path = a
      for b in p:
          if b.startswith(sep): path = b
          elif not path or path.endswith(sep): path += b
          else: path += sep + b
      return path
  \<close>
  \<open>posix_join\<close> is one round of the loop, \<open>join\<close> with one further component;
  \<open>posix_join_all\<close> is the loop.
\<close>

definition posix_join :: "string \<Rightarrow> string \<Rightarrow> string" where
  "posix_join a b =
     (if startswith b [sep] then b
      else if a = [] \<or> endswith a [sep] then a @ b
      else a @ [sep] @ b)"

definition posix_join_all :: "string \<Rightarrow> string list \<Rightarrow> string" where
  "posix_join_all a p = foldl posix_join a p"

text \<open>
  \<^verbatim>\<open>
  def normpath(path):
      if path == '': return '.'
      initial_slashes = path.startswith('/')
      if (initial_slashes and path.startswith('//') and not path.startswith('///')):
          initial_slashes = 2
      comps = path.split('/')
      new_comps = []
      for comp in comps:
          if comp in ('', '.'): continue
          if (comp != '..' or (not initial_slashes and not new_comps) or
               (new_comps and new_comps[-1] == '..')):
              new_comps.append(comp)
          elif new_comps:
              new_comps.pop()
      path = '/'.join(new_comps)
      if initial_slashes: path = '/'*initial_slashes + path
      return path or '.'
  \<close>
\<close>

definition initial_slashes :: "string \<Rightarrow> nat" where
  "initial_slashes p =
     (if \<not> startswith p [sep] then 0
      else if startswith p [sep, sep] \<and> \<not> startswith p [sep, sep, sep] then 2
      else 1)"

definition norm_step :: "nat \<Rightarrow> string list \<Rightarrow> string \<Rightarrow> string list" where
  "norm_step ini new_comps c =
     (if c = [] \<or> c = ''.'' then new_comps
      else if c \<noteq> ''..'' \<or> (ini = 0 \<and> new_comps = [])
              \<or> (new_comps \<noteq> [] \<and> last new_comps = ''..'')
           then new_comps @ [c]
      else if new_comps \<noteq> [] then butlast new_comps
      else new_comps)"

definition normpath :: "string \<Rightarrow> string" where
  "normpath p =
     (if p = [] then ''.''
      else
        let ini = initial_slashes p;
            new_comps = foldl (norm_step ini) [] (split_str sep p);
            q = replicate ini sep @ join_str [sep] new_comps
        in if q = [] then ''.'' else q)"

text \<open>
  \<^verbatim>\<open>
  def abspath(path):
      if not isabs(path):
          path = join(os.getcwd(), path)
      return normpath(path)
  \<close>
\<close>

definition isabs :: "string \<Rightarrow> bool" where
  "isabs p = startswith p [sep]"

definition abspath :: "env \<Rightarrow> string \<Rightarrow> string" where
  "abspath e p = normpath (if \<not> isabs p then posix_join (cwd e) p else p)"

text \<open>
  \<open>len(commonprefix([a, b]))\<close> on two lists of components: the length of their longest
  common prefix (\<open>commonprefix\<close> compares the smaller list with the larger one, item by
  item).
\<close>

fun commonprefix_len :: "string list \<Rightarrow> string list \<Rightarrow> nat" where
  "commonprefix_len (x # xs) (y # ys) = (if x = y then Suc (commonprefix_len xs ys) else 0)"
| "commonprefix_len xs ys = 0"

text \<open>
  \<^verbatim>\<open>
  def relpath(path, start=None):
      if not path: raise ValueError("no path specified")
      start_list = [x for x in abspath(start).split(sep) if x]
      path_list = [x for x in abspath(path).split(sep) if x]
      i = len(commonprefix([start_list, path_list]))
      rel_list = [pardir] * (len(start_list)-i) + path_list[i:]
      if not rel_list: return curdir
      return join(*rel_list)
  \<close>
\<close>

definition relpath :: "env \<Rightarrow> string \<Rightarrow> string \<Rightarrow> error + string" where
  "relpath e p start =
     (if p = [] then Inl ValueError
      else
        let start_list = filter (\<lambda>x. x \<noteq> []) (split_str sep (abspath e start));
            path_list = filter (\<lambda>x. x \<noteq> []) (split_str sep (abspath e p));
            i = commonprefix_len start_list path_list;
            rel_list = replicate (length start_list - i) ''..'' @ drop i path_list
        in if rel_list = [] then Inr ''.''
           else Inr (posix_join_all (hd rel_list) (tl rel_list)))"

subsection \<open>\<open>os.walk\<close>\<close>

text \<open>
  \<^verbatim>\<open>
  def walk(top, topdown=True, onerror=None, followlinks=False):
      dirs = []; nondirs = []
      try:
          scandir_it = scandir(top)
      except OSError as error:    # "os.walk always suppressed the exception"
          if onerror is not None: onerror(error)
          return
      for entry in scandir_it:
          if entry.is_dir(): dirs.append(entry.name)
          else: nondirs.append(entry.name)
      yield top, dirs, nondirs
      for dirname in dirs:
          new_path = join(top, dirname)
          if followlinks or not islink(new_path):
              yield from walk(new_path, topdown, onerror, followlinks)
  \<close>
  \<open>list_packages\<close> leaves \<open>onerror\<close> at \<open>None\<close>: an \<open>OSError\<close> of \<open>scandir\<close> ends the walk of
  that directory silently. The recursion follows the entries of the tree: \<open>new_path\<close>
  names the entry \<open>dirname\<close> of the directory just listed (lemma \<open>walk_entry\<close> below),
  and no entry is a link. \<open>tp\<close> is the source's \<open>top\<close>.

  Every level of the walk is a frame of the interpreter, and the calls in the loop
  (\<open>join\<close>, \<open>islink\<close>) go deeper than the next level does. So a directory at the last
  level that the recursion limit admits is still yielded, and the first round of its loop
  raises \<open>RecursionError\<close>, which ends the whole walk; \<open>d\<close> counts the levels that are
  left below \<open>tp\<close>.
\<close>

type_synonym walk_item = "string \<times> string list \<times> string list"

definition dir_entries :: "(string \<times> node) list \<Rightarrow> (string \<times> node) list" where
  "dir_entries es = filter (\<lambda>en. is_dir (snd en)) es"

definition nondir_entries :: "(string \<times> node) list \<Rightarrow> (string \<times> node) list" where
  "nondir_entries es = filter (\<lambda>en. \<not> is_dir (snd en)) es"

function walk_from :: "nat \<Rightarrow> string \<Rightarrow> node \<Rightarrow> walk_item generated" where
  "walk_from d tp File = ([], None)"
| "walk_from d tp (Dir r es) =
     (if \<not> r then ([], None)
      else
        (case yield_from_each
                (\<lambda>en. if d = 0 then ([], Some RecursionError)
                      else walk_from (d - 1) (posix_join tp (fst en)) (snd en))
                (dir_entries es) of
           (items, err) \<Rightarrow>
             ((tp, map fst (dir_entries es), map fst (nondir_entries es)) # items, err)))"
  by pat_completeness auto
termination
proof (relation "measure (\<lambda>(d, tp, n). size n)")
  show "wf (measure (\<lambda>(d, tp, n). size n))" by simp
next
  fix d :: nat and tp :: string and r es and en :: "string \<times> node"
  assume "en \<in> set (dir_entries es)"
  then have "en \<in> set es" by (simp add: dir_entries_def)
  then have "size (snd en) < Suc (size_list (size_prod (\<lambda>_. 0) size) es)"
    by (induction es) (auto simp: less_Suc_eq_le)
  then show "((d - 1, posix_join tp (fst en), snd en), (d, tp, Dir r es))
             \<in> measure (\<lambda>(d, tp, n). size n)"
    by simp
qed

text \<open>
  The walk of a path: of nothing when \<open>scandir\<close> fails with an \<open>OSError\<close>, and else of the
  directory that \<open>scandir\<close> has listed.
\<close>

definition walk :: "env \<Rightarrow> string \<Rightarrow> walk_item generated" where
  "walk e tp =
     (case scandir e tp of
        Inl err \<Rightarrow> if is_OSError err then ([], None) else ([], Some err)
      | Inr es \<Rightarrow> walk_from (depth_limit e) tp (Dir True es))"

subsection \<open>\<open>list_packages\<close> and the call of \<open>setup\<close>\<close>

text \<open>
  The expression yielded for one \<open>root\<close> of the walk:
  \<open>".".join(os.path.relpath(root, src_path).split(os.path.sep))\<close>.
\<close>

definition package_name :: "env \<Rightarrow> string \<Rightarrow> string \<Rightarrow> error + string" where
  "package_name e src_path root =
     (case relpath e root src_path of
        Inl err \<Rightarrow> Inl err
      | Inr rel \<Rightarrow> Inr (join_str ''.'' (split_str sep rel)))"

text \<open>
  The body of the \<open>for\<close> loop runs once per item of the walk; an exception of
  \<open>relpath\<close> ends the generator after the names yielded so far, and an exception of the
  walk ends it where the walk ends.
\<close>

fun packages_loop :: "env \<Rightarrow> string \<Rightarrow> walk_item list \<Rightarrow> error option \<Rightarrow> string generated" where
  "packages_loop e src_path [] werr = ([], werr)"
| "packages_loop e src_path ((root, ds, fs) # rest) werr =
     (case package_name e src_path root of
        Inl err \<Rightarrow> ([], Some err)
      | Inr nm \<Rightarrow>
          (case packages_loop e src_path rest werr of
             (names, err) \<Rightarrow> (nm # names, err)))"

definition list_packages :: "env \<Rightarrow> string \<Rightarrow> string generated" where
  "list_packages e src_path =
     (case walk e (posix_join src_path ''indigo-stubs'') of
        (items, werr) \<Rightarrow> packages_loop e src_path items werr)"

record setup_args =
  name :: string
  version :: string
  url :: string
  author :: string
  author_email :: string
  description :: string
  install_requires :: "string list"
  packages :: "string list"
  package_data :: "(string \<times> string list) list"

text \<open>\<open>list(g)\<close>: the items of the generator, or its exception.\<close>

fun list_of :: "'a generated \<Rightarrow> error + 'a list" where
  "list_of (xs, None) = Inr xs"
| "list_of (xs, Some err) = Inl err"

definition setup_call :: "env \<Rightarrow> error + setup_args" where
  "setup_call e =
     (case list_of (list_packages e []) of
        Inl err \<Rightarrow> Inl err
      | Inr pkgs \<Rightarrow>
          Inr \<lparr> name = ''indigo-stubs'', version = ''3.0.0'',
                url = ''https://github.com/mypackage.git'', author = ''Author Name'',
                author_email = ''author@gmail.com'',
                description = ''Description of my package'',
                install_requires = [], packages = pkgs,
                package_data = [([], [''*.pyi''])] \<rparr>)"

subsection \<open>Well-formed environments and the shape of a tree\<close>

text \<open>
  A name of a directory entry is not empty, is neither \<open>.\<close> nor \<open>..\<close>, and has neither
  \<open>/\<close> nor NUL in it; the names of the entries of one directory differ; \<open>os.getcwd()\<close>
  returns an absolute path. Every file system and process of a POSIX platform is
  well-formed in this sense.
\<close>

definition proper_name :: "string \<Rightarrow> bool" where
  "proper_name c = (c \<noteq> [] \<and> sep \<notin> set c \<and> nul \<notin> set c \<and> c \<noteq> ''.'' \<and> c \<noteq> ''..'')"

function names_ok :: "node \<Rightarrow> bool" where
  "names_ok File = True"
| "names_ok (Dir r es) =
     ((\<forall>en \<in> set es. proper_name (fst en) \<and> names_ok (snd en)) \<and> distinct (map fst es))"
  by pat_completeness auto
termination
proof (relation "measure size")
  show "wf (measure size)" by simp
next
  fix r :: bool and es :: "(string \<times> node) list" and en :: "string \<times> node"
  assume "en \<in> set (es)"
  then have "size (snd en) < Suc (size_list (size_prod (\<lambda>_. 0) size) es)"
    by (induction es) (auto simp: less_Suc_eq_le)
  then show "(snd en, Dir r es) \<in> measure size"
    by simp
qed

definition wf_env :: "env \<Rightarrow> bool" where
  "wf_env e = (names_ok (fs_root e) \<and> isabs (cwd e))"

text \<open>
  The directories that a walk of a tree visits with \<open>d\<close> levels left, each as the list of
  entry names that lead to it from the top, in the order of the walk; and the exception
  that ends the walk, if any.
\<close>

function visited :: "nat \<Rightarrow> node \<Rightarrow> string list generated" where
  "visited d File = ([], None)"
| "visited d (Dir r es) =
     (if \<not> r then ([], None)
      else
        (case yield_from_each
                (\<lambda>en. if d = 0 then ([], Some RecursionError)
                      else map_gen ((#) (fst en)) (visited (d - 1) (snd en)))
                (dir_entries es) of
           (items, err) \<Rightarrow> ([] # items, err)))"
  by pat_completeness auto
termination
proof (relation "measure (\<lambda>(d, n). size n)")
  show "wf (measure (\<lambda>(d, n). size n))" by simp
next
  fix d :: nat and r :: bool and es :: "(string \<times> node) list" and en :: "string \<times> node"
  assume "en \<in> set (dir_entries es)"
  then have "en \<in> set es" by (simp add: dir_entries_def)
  then have "size (snd en) < Suc (size_list (size_prod (\<lambda>_. 0) size) es)"
    by (induction es) (auto simp: less_Suc_eq_le)
  then show "((d - 1, snd en), (d, Dir r es)) \<in> measure (\<lambda>(d, n). size n)"
    by simp
qed




subsection \<open>Auxiliary notions\<close>

text \<open>Components as \<open>normpath\<close> keeps them: not empty and free of the separator.\<close>

definition good_comps :: "string list \<Rightarrow> bool" where
  "good_comps xs = (\<forall>x \<in> set xs. x \<noteq> [] \<and> sep \<notin> set x)"

text \<open>The argument that \<open>abspath\<close> hands to \<open>normpath\<close>.\<close>

definition abs_str :: "env \<Rightarrow> string \<Rightarrow> string" where
  "abs_str e p = (if \<not> isabs p then posix_join (cwd e) p else p)"

text \<open>A path without one trailing separator.\<close>

definition strip_sep :: "string \<Rightarrow> string" where
  "strip_sep s = (if s \<noteq> [] \<and> last s = sep then butlast s else s)"

text \<open>The path that \<open>list_packages\<close> hands to \<open>os.walk\<close>.\<close>

definition top_path :: "string \<Rightarrow> string" where
  "top_path src_path = posix_join src_path ''indigo-stubs''"

text \<open>The dotted name of the directory reached from the top by the entry names \<open>cs\<close>.\<close>

definition dotted :: "string list \<Rightarrow> string" where
  "dotted cs = join_str ''.'' (''indigo-stubs'' # cs)"

text \<open>The name that \<open>list_packages\<close> yields for a \<open>root\<close> of the walk.\<close>

definition name_of :: "env \<Rightarrow> string \<Rightarrow> string \<Rightarrow> string" where
  "name_of e src_path root =
     (case package_name e src_path root of Inl err \<Rightarrow> [] | Inr nm \<Rightarrow> nm)"

text \<open>A directory exists at a path.\<close>

definition dir_exists :: "env \<Rightarrow> string \<Rightarrow> bool" where
  "dir_exists e p = (case os_lookup e p of Inl err \<Rightarrow> False | Inr n \<Rightarrow> is_dir n)"

text \<open>
  A file system path: a string that the operating system accepts as a path. Python
  refuses a string with a NUL character (and a Unicode string that the file system
  encoding cannot encode, which has no counterpart among the strings of bytes here).
\<close>

definition fs_path :: "string \<Rightarrow> bool" where
  "fs_path p = (nul \<notin> set p)"

text \<open>\<open>descend\<close> with the directories passed on the way: the result and its ancestors.\<close>

fun descend_to :: "node list \<Rightarrow> string list \<Rightarrow> error + node list" where
  "descend_to [] cs = Inl FileNotFoundError"
| "descend_to (n # up) [] = Inr (n # up)"
| "descend_to (File # up) (c # cs) = Inl NotADirectoryError"
| "descend_to (Dir r es # up) (c # cs) =
     (if c = [] \<or> c = ''.'' then descend_to (Dir r es # up) cs
      else if c = ''..'' then descend_to (if up = [] then [Dir r es] else up) cs
      else (case map_of es c of
              None \<Rightarrow> Inl FileNotFoundError
            | Some m \<Rightarrow> descend_to (m # Dir r es # up) cs))"

text \<open>
  In a list of visited directories, every directory other than the top comes after its
  parent, or its parent is in \<open>base\<close>.
\<close>

definition parents_before :: "string list set \<Rightarrow> string list list \<Rightarrow> bool" where
  "parents_before base L =
     (\<forall>pre x post. L = pre @ x # post \<longrightarrow> x \<noteq> [] \<longrightarrow> butlast x \<in> base \<union> set pre)"

subsection \<open>Example file systems\<close>

text \<open>
  A project directory \<open>/proj\<close>, which is also the working directory, with \<open>setup.py\<close> and
  further entries, under the default recursion limit; and some trees for the entry
  \<open>indigo-stubs\<close>.
\<close>

definition project :: "(string \<times> node) list \<Rightarrow> env" where
  "project es =
     \<lparr> fs_root = Dir True [(''proj'', Dir True ((''setup.py'', File) # es))],
       cwd = ''/proj'', depth_limit = 995 \<rparr>"

definition foo_bar_tree :: node where
  "foo_bar_tree =
     Dir True [(''__init__.pyi'', File),
               (''foo'', Dir True [(''bar'', Dir True [(''x.pyi'', File)])])]"

definition a_b_tree :: node where
  "a_b_tree = Dir True [(''a'', Dir True [(''b'', Dir True [])])]"


definition locked_tree :: node where
  "locked_tree = Dir False [(''foo'', Dir True [])]"

definition dotted_dir_tree :: node where
  "dotted_dir_tree = Dir True [(''x.y'', Dir True [])]"

definition locked_inner_tree :: node where
  "locked_inner_tree = Dir True [(''locked'', Dir False [(''inner'', Dir True [])])]"


definition chain_tree :: node where
  "chain_tree = Dir True [(''a'', Dir True [(''b'', Dir True [(''c'', Dir True [])])])]"

definition mixed_tree :: node where
  "mixed_tree = Dir True [(''x.y'', Dir True []), (''a'', Dir True [(''b'', Dir True [])])]"

section \<open>Properties of the library functions\<close>

subsection \<open>Facts about \<open>split\<close> and \<open>join\<close>\<close>

lemma split_str_ne [simp]: "split_str c s \<noteq> []"
  by (induction s) (auto split: list.splits)

lemma split_str_nosep: "c \<notin> set s \<Longrightarrow> split_str c s = [s]"
  by (induction s) auto

lemma split_str_append: "split_str c (a @ c # b) = split_str c a @ split_str c b"
  by (induction a) (auto split: list.splits)

lemma split_str_free: "x \<in> set (split_str c s) \<Longrightarrow> c \<notin> set x"
proof (induction s arbitrary: x)
  case Nil
  then show ?case by simp
next
  case (Cons a s)
  then show ?case
    by (cases "split_str c s") (auto split: if_splits)
qed

lemma split_str_concat:
  "\<forall>x \<in> set cs. c \<notin> set x \<Longrightarrow>
   split_str c (a @ concat (map ((#) c) cs)) = split_str c a @ cs"
proof (induction cs arbitrary: a)
  case Nil
  then show ?case by simp
next
  case (Cons x cs)
  have "split_str c ((a @ c # x) @ concat (map ((#) c) cs)) = split_str c (a @ c # x) @ cs"
    using Cons.prems by (intro Cons.IH) simp
  then show ?case using Cons.prems
    by (simp add: split_str_append split_str_nosep)
qed

lemma join_str_concat: "join_str d (x # xs) = x @ concat (map ((@) d) xs)"
  by (induction xs arbitrary: x) auto

lemma join_split: "join_str [c] (split_str c s) = s"
proof (induction s)
  case Nil
  then show ?case by simp
next
  case (Cons a s)
  then show ?case
    by (cases "split_str c s") (auto simp: join_str_concat)
qed

lemma append_single: "(@) [c] = (#) c"
  by (rule ext) simp

lemma join_sep_concat: "join_str [c] (x # xs) = x @ concat (map ((#) c) xs)"
  by (simp add: join_str_concat append_single)

lemma split_join:
  "xs \<noteq> [] \<Longrightarrow> \<forall>x \<in> set xs. c \<notin> set x \<Longrightarrow> split_str c (join_str [c] xs) = xs"
  using split_str_concat [of "tl xs" c "hd xs"]
  by (cases xs) (auto simp: join_sep_concat split_str_nosep)

lemma startswith_sep: "startswith s [c] \<longleftrightarrow> s \<noteq> [] \<and> hd s = c"
  by (cases s) (auto simp: startswith_def)

lemma endswith_sep: "endswith s [c] \<longleftrightarrow> s \<noteq> [] \<and> last s = c"
proof (cases s rule: rev_cases)
  case Nil
  then show ?thesis by (simp add: endswith_def)
next
  case (snoc ys y)
  then show ?thesis by (auto simp: endswith_def)
qed

subsection \<open>Facts about \<open>normpath\<close>\<close>

lemma norm_step_empty [simp]: "norm_step ini acc [] = acc"
  by (simp add: norm_step_def)

lemma norm_step_proper:
  "c \<noteq> [] \<Longrightarrow> c \<noteq> ''.'' \<Longrightarrow> c \<noteq> ''..'' \<Longrightarrow> norm_step ini acc c = acc @ [c]"
  by (simp add: norm_step_def)

lemma norm_step_pos: "0 < ini \<Longrightarrow> norm_step ini = norm_step (Suc 0)"
  by (intro ext) (simp add: norm_step_def)

lemma foldl_norm_proper:
  "\<forall>c \<in> set cs. c \<noteq> [] \<and> c \<noteq> ''.'' \<and> c \<noteq> ''..'' \<Longrightarrow>
   foldl (norm_step ini) acc cs = acc @ cs"
  by (induction cs arbitrary: acc) (simp_all add: norm_step_proper)

lemma good_norm_step:
  "good_comps acc \<Longrightarrow> sep \<notin> set c \<Longrightarrow> good_comps (norm_step ini acc c)"
  by (auto simp: good_comps_def norm_step_def dest: in_set_butlastD)

lemma good_foldl_norm:
  "good_comps acc \<Longrightarrow> \<forall>c \<in> set cs. sep \<notin> set c \<Longrightarrow>
   good_comps (foldl (norm_step ini) acc cs)"
  by (induction cs arbitrary: acc) (simp_all add: good_norm_step)

lemma good_norm_split: "good_comps (foldl (norm_step ini) [] (split_str sep p))"
  by (rule good_foldl_norm) (auto simp: good_comps_def dest: split_str_free)

lemma filter_split_replicate:
  "filter (\<lambda>x. x \<noteq> []) (split_str c (replicate k c @ s)) = filter (\<lambda>x. x \<noteq> []) (split_str c s)"
  by (induction k) simp_all

lemma filter_split_join:
  assumes "good_comps xs"
  shows "filter (\<lambda>x. x \<noteq> []) (split_str sep (join_str [sep] xs)) = xs"
proof (cases xs)
  case Nil
  then show ?thesis by simp
next
  case (Cons y ys)
  then have "split_str sep (join_str [sep] xs) = xs"
    using assms by (intro split_join) (auto simp: good_comps_def)
  moreover have "filter (\<lambda>x. x \<noteq> []) xs = xs"
    using assms by (auto simp: good_comps_def filter_id_conv)
  ultimately show ?thesis by simp
qed

lemma initial_slashes_pos: "isabs p \<Longrightarrow> 0 < initial_slashes p"
  by (simp add: isabs_def initial_slashes_def)

lemma abs_comps:
  assumes "isabs p"
  shows "filter (\<lambda>x. x \<noteq> []) (split_str sep (normpath p))
         = foldl (norm_step (Suc 0)) [] (split_str sep p)"
proof -
  let ?ini = "initial_slashes p"
  let ?cs = "foldl (norm_step ?ini) [] (split_str sep p)"
  have pos: "0 < ?ini" using assms by (rule initial_slashes_pos)
  have ne: "p \<noteq> []" using assms by (auto simp: isabs_def startswith_def)
  have "normpath p = replicate ?ini sep @ join_str [sep] ?cs"
    using pos ne by (auto simp: normpath_def Let_def)
  then have "filter (\<lambda>x. x \<noteq> []) (split_str sep (normpath p)) = ?cs"
    by (simp add: filter_split_replicate filter_split_join good_norm_split)
  then show ?thesis by (simp add: norm_step_pos [OF pos])
qed



subsection \<open>Facts about \<open>relpath\<close>\<close>

lemma abspath_abs_str: "abspath e p = normpath (abs_str e p)"
  by (simp add: abspath_def abs_str_def)

lemma isabs_abs_str: "isabs (cwd e) \<Longrightarrow> isabs (abs_str e p)"
  by (auto simp: abs_str_def isabs_def posix_join_def startswith_sep)

lemma butlast_last_eq: "s \<noteq> [] \<Longrightarrow> last s = c \<Longrightarrow> butlast s @ [c] = s"
  using append_butlast_last_id [of s] by simp

lemma strip_sep_cases: "s = strip_sep s \<or> s = strip_sep s @ [sep]"
  by (simp add: strip_sep_def butlast_last_eq)

lemma posix_join_rel:
  "a \<noteq> [] \<Longrightarrow> \<not> startswith b [sep] \<Longrightarrow> posix_join a b = strip_sep a @ sep # b"
  using butlast_last_eq [of a sep]
  by (simp add: posix_join_def endswith_sep strip_sep_def)

lemma abs_str_below:
  assumes cwd: "isabs (cwd e)" and nm: "nm \<noteq> []" "hd nm \<noteq> sep"
  shows "abs_str e (posix_join src nm @ rest) = strip_sep (abs_str e src) @ sep # nm @ rest"
proof -
  have c: "cwd e \<noteq> []" "hd (cwd e) = sep"
    using cwd by (auto simp: isabs_def startswith_sep)
  have nb: "\<not> startswith nm [sep]" "\<not> startswith (nm @ rest) [sep]"
    using nm by (auto simp: startswith_sep)
  show ?thesis
  proof (cases "src = []")
    case True
    then have "posix_join src nm = nm" using nb by (simp add: posix_join_def)
    moreover have "abs_str e (nm @ rest) = strip_sep (cwd e) @ sep # nm @ rest"
      using nb c by (simp add: abs_str_def isabs_def posix_join_rel)
    moreover have "abs_str e [] = strip_sep (cwd e) @ [sep]"
      using c butlast_last_eq [of "cwd e" sep]
      by (simp add: abs_str_def isabs_def posix_join_def startswith_def endswith_sep strip_sep_def)
    ultimately show ?thesis using True by (simp add: strip_sep_def)
  next
    case False
    then have j: "posix_join src nm = strip_sep src @ sep # nm"
      using nb by (simp add: posix_join_rel)
    show ?thesis
    proof (cases "isabs src")
      case True
      then have "isabs (strip_sep src @ sep # nm @ rest)"
        using False by (cases src) (auto simp: isabs_def startswith_sep strip_sep_def)
      then show ?thesis using True j by (simp add: abs_str_def)
    next
      case rel: False
      then have r2: "\<not> startswith (strip_sep src @ sep # nm @ rest) [sep]"
        using False by (cases src) (auto simp: isabs_def startswith_sep strip_sep_def)
      have "abs_str e src = strip_sep (cwd e) @ sep # src"
        using rel c by (simp add: abs_str_def posix_join_rel isabs_def)
      moreover have "strip_sep (strip_sep (cwd e) @ sep # src) = strip_sep (cwd e) @ sep # strip_sep src"
        using False by (auto simp: strip_sep_def butlast_append)
      moreover have "abs_str e (posix_join src nm @ rest)
                     = strip_sep (cwd e) @ sep # strip_sep src @ sep # nm @ rest"
        using r2 c j by (simp add: abs_str_def isabs_def posix_join_rel)
      ultimately show ?thesis by simp
    qed
  qed
qed

lemma norm_strip_sep:
  "foldl (norm_step ini) [] (split_str sep s) = foldl (norm_step ini) [] (split_str sep (strip_sep s))"
proof (cases "s = strip_sep s")
  case True
  then show ?thesis by simp
next
  case False
  then have "s = strip_sep s @ [sep]" using strip_sep_cases [of s] by simp
  then have "split_str sep s = split_str sep (strip_sep s) @ [[]]"
    using split_str_append [of sep "strip_sep s" "[]"] by simp
  then show ?thesis by simp
qed

lemma comps_below:
  assumes cwd: "isabs (cwd e)" and nm: "proper_name nm" and cs: "\<forall>c \<in> set cs. proper_name c"
  shows "foldl (norm_step (Suc 0)) [] (split_str sep (abs_str e (posix_join src nm @ concat (map ((#) sep) cs))))
         = foldl (norm_step (Suc 0)) [] (split_str sep (abs_str e src)) @ nm # cs"
proof -
  let ?S = "abs_str e src"
  have nm': "nm \<noteq> []" "hd nm \<noteq> sep" "sep \<notin> set nm"
    using nm by (cases nm; auto simp: proper_name_def)+
  have "abs_str e (posix_join src nm @ concat (map ((#) sep) cs))
        = (strip_sep ?S @ sep # nm) @ concat (map ((#) sep) cs)"
    using abs_str_below [OF cwd nm'(1,2)] by simp
  moreover have "split_str sep ((strip_sep ?S @ sep # nm) @ concat (map ((#) sep) cs))
        = split_str sep (strip_sep ?S) @ nm # cs"
    using cs nm' by (simp add: split_str_concat split_str_append split_str_nosep proper_name_def)
  moreover have "foldl (norm_step (Suc 0)) (foldl (norm_step (Suc 0)) [] (split_str sep (strip_sep ?S))) (nm # cs)
        = foldl (norm_step (Suc 0)) [] (split_str sep (strip_sep ?S)) @ nm # cs"
    using cs nm by (intro foldl_norm_proper) (auto simp: proper_name_def)
  ultimately show ?thesis
    using norm_strip_sep [of "Suc 0" ?S] by simp
qed

lemma commonprefix_len_append: "commonprefix_len xs (xs @ ys) = length xs"
  by (induction xs) simp_all

lemma posix_join_all_proper:
  "a \<noteq> [] \<Longrightarrow> last a \<noteq> sep \<Longrightarrow> \<forall>c \<in> set cs. c \<noteq> [] \<and> sep \<notin> set c \<Longrightarrow>
   posix_join_all a cs = a @ concat (map ((#) sep) cs)"
proof (induction cs arbitrary: a)
  case Nil
  then show ?case by (simp add: posix_join_all_def)
next
  case (Cons c cs)
  have c: "c \<noteq> []" "sep \<notin> set c" using Cons.prems by auto
  have h: "hd c \<noteq> sep" using c by (cases c) auto
  have l: "last c \<noteq> sep" using c by (cases c rule: rev_cases) auto
  have j: "posix_join a c = a @ sep # c"
    using Cons.prems c h by (simp add: posix_join_def startswith_sep endswith_sep)
  have "posix_join_all (a @ sep # c) cs = (a @ sep # c) @ concat (map ((#) sep) cs)"
    using Cons.prems c l by (intro Cons.IH) auto
  then show ?case using j by (simp add: posix_join_all_def)
qed

lemma relpath_below:
  assumes cwd: "isabs (cwd e)" and nm: "proper_name nm" and cs: "\<forall>c \<in> set cs. proper_name c"
  shows "relpath e (posix_join src nm @ concat (map ((#) sep) cs)) src
         = Inr (nm @ concat (map ((#) sep) cs))"
proof -
  let ?p = "posix_join src nm @ concat (map ((#) sep) cs)"
  let ?base = "foldl (norm_step (Suc 0)) [] (split_str sep (abs_str e src))"
  have nm': "nm \<noteq> []" "sep \<notin> set nm" using nm by (auto simp: proper_name_def)
  then have l: "last nm \<noteq> sep" by (cases nm rule: rev_cases) auto
  have ne: "?p \<noteq> []" using nm' by (auto simp: posix_join_def)
  have s: "filter (\<lambda>x. x \<noteq> []) (split_str sep (abspath e src)) = ?base"
    by (simp add: abspath_abs_str abs_comps isabs_abs_str cwd)
  have p: "filter (\<lambda>x. x \<noteq> []) (split_str sep (abspath e ?p)) = ?base @ nm # cs"
    by (simp add: abspath_abs_str abs_comps isabs_abs_str cwd comps_below [OF cwd nm cs])
  have "posix_join_all nm cs = nm @ concat (map ((#) sep) cs)"
    using nm' l cs by (intro posix_join_all_proper) (auto simp: proper_name_def)
  then show ?thesis
    using ne unfolding relpath_def s p
    by (simp add: commonprefix_len_append Let_def)
qed

section \<open>Properties of the walk and of \<open>list_packages\<close>\<close>

lemma map_gen_simps [simp]: "map_gen h (ys, err) = (map h ys, err)"
  by (simp add: map_gen_def)

lemma map_gen_comp: "map_gen h (map_gen k g) = map_gen (h \<circ> k) g"
  by (simp add: map_gen_def)

lemma map_gen_yield_from_each:
  "map_gen h (yield_from_each f xs) = yield_from_each (\<lambda>x. map_gen h (f x)) xs"
proof (induction xs)
  case Nil
  then show ?case by simp
next
  case (Cons x xs)
  obtain ys err where fx: "f x = (ys, err)" by (cases "f x")
  obtain zs err' where r: "yield_from_each f xs = (zs, err')" by (cases "yield_from_each f xs")
  show ?case using Cons fx r by (cases err) (auto simp: map_gen_def split: prod.splits)
qed

lemma yield_from_each_set:
  "y \<in> set (fst (yield_from_each f xs)) \<Longrightarrow> \<exists>x \<in> set xs. y \<in> set (fst (f x))"
proof (induction xs)
  case Nil
  then show ?case by simp
next
  case (Cons x xs)
  obtain ys err where fx: "f x = (ys, err)" by (cases "f x")
  obtain zs err' where r: "yield_from_each f xs = (zs, err')" by (cases "yield_from_each f xs")
  show ?case using Cons fx r by (cases err) auto
qed

lemma yield_from_each_err:
  "snd (yield_from_each f xs) = Some err \<Longrightarrow> \<exists>x \<in> set xs. snd (f x) = Some err"
proof (induction xs)
  case Nil
  then show ?case by simp
next
  case (Cons x xs)
  obtain ys err0 where fx: "f x = (ys, err0)" by (cases "f x")
  obtain zs err' where r: "yield_from_each f xs = (zs, err')" by (cases "yield_from_each f xs")
  show ?case using Cons fx r by (cases err0) auto
qed


lemma proper_indigo: "proper_name ''indigo-stubs''"
  by (simp add: proper_name_def sep_def nul_def)

lemma split_indigo: "split_str sep ''indigo-stubs'' = [''indigo-stubs'']"
  by (simp add: sep_def)

lemma split_below:
  "split_str c nm = [nm] \<Longrightarrow> \<forall>x \<in> set cs. c \<notin> set x \<Longrightarrow>
   split_str c (nm @ concat (map ((#) c) cs)) = nm # cs"
  by (simp add: split_str_concat)

lemma top_path_shape: "top_path src = strip_sep src @ (if src = [] then [] else [sep]) @ ''indigo-stubs''"
  by (auto simp: top_path_def posix_join_def startswith_sep endswith_sep strip_sep_def sep_def butlast_last_eq)

lemma top_path_ne: "top_path src \<noteq> []"
  by (simp add: top_path_shape)

lemma top_path_last: "last (top_path src) \<noteq> sep"
  by (simp add: top_path_shape sep_def)

lemma posix_join_ne: "a \<noteq> [] \<Longrightarrow> posix_join a b \<noteq> []"
  by (auto simp: posix_join_def startswith_sep)

lemma visited_proper:
  "names_ok n \<Longrightarrow> cs \<in> set (fst (visited d n)) \<Longrightarrow> c \<in> set cs \<Longrightarrow> proper_name c"
proof (induction d n arbitrary: cs rule: visited.induct)
  case (1 d)
  then show ?case by simp
next
  case (2 d r es)
  let ?f = "\<lambda>en. if d = 0 then ([], Some RecursionError)
                 else map_gen ((#) (fst en)) (visited (d - 1) (snd en))"
  show ?case
  proof (cases "cs = []")
    case True
    then show ?thesis using "2.prems" by simp
  next
    case False
    then have r: r and "cs \<in> set (fst (yield_from_each ?f (dir_entries es)))"
      using "2.prems"(2) by (auto split: if_splits prod.splits)
    then obtain en where en: "en \<in> set (dir_entries es)" "cs \<in> set (fst (?f en))"
      using yield_from_each_set [of cs ?f "dir_entries es"] by blast
    then have d: "d \<noteq> 0" by (auto split: if_splits)
    then obtain ds where ds: "ds \<in> set (fst (visited (d - 1) (snd en)))" "cs = fst en # ds"
      using en(2) by (auto simp: map_gen_def)
    have "en \<in> set es" using en(1) by (simp add: dir_entries_def)
    then have ok: "proper_name (fst en)" "names_ok (snd en)" using "2.prems"(1) by auto
    show ?thesis
    proof (cases "c = fst en")
      case True
      then show ?thesis using ok by simp
    next
      case False
      then have "c \<in> set ds" using "2.prems"(3) ds(2) by simp
      then show ?thesis using "2.IH" [OF _ en(1) _ ok(2) ds(1)] r d by simp
    qed
  qed
qed

lemma walk_from_visited:
  "names_ok n \<Longrightarrow> tp \<noteq> [] \<Longrightarrow> last tp \<noteq> sep \<Longrightarrow>
   map_gen fst (walk_from d tp n) = map_gen (\<lambda>cs. tp @ concat (map ((#) sep) cs)) (visited d n)"
proof (induction d tp n rule: walk_from.induct)
  case (1 d tp)
  then show ?case by simp
next
  case (2 d tp r es)
  let ?h = "\<lambda>cs. tp @ concat (map ((#) sep) cs)"
  let ?F = "\<lambda>en. if d = 0 then ([], Some RecursionError)
                 else walk_from (d - 1) (posix_join tp (fst en)) (snd en)"
  let ?G = "\<lambda>en. if d = 0 then ([], Some RecursionError)
                 else map_gen ((#) (fst en)) (visited (d - 1) (snd en))"
  show ?case
  proof (cases r)
    case False
    then show ?thesis by simp
  next
    case True
    have step: "map_gen fst (?F en) = map_gen ?h (?G en)" if en: "en \<in> set (dir_entries es)" for en
    proof (cases "d = 0")
      case True
      then show ?thesis by simp
    next
      case False
      have "en \<in> set es" using en by (simp add: dir_entries_def)
      then have ok: "proper_name (fst en)" "names_ok (snd en)" using "2.prems"(1) by auto
      then have nm: "fst en \<noteq> []" "sep \<notin> set (fst en)" by (auto simp: proper_name_def)
      then have h: "hd (fst en) \<noteq> sep" by (cases "fst en") auto
      have l: "last (fst en) \<noteq> sep" using nm by (cases "fst en" rule: rev_cases) auto
      have j: "posix_join tp (fst en) = tp @ sep # fst en"
        using "2.prems" nm h by (simp add: posix_join_def startswith_sep endswith_sep)
      have "map_gen fst (walk_from (d - 1) (tp @ sep # fst en) (snd en))
            = map_gen (\<lambda>cs. (tp @ sep # fst en) @ concat (map ((#) sep) cs)) (visited (d - 1) (snd en))"
        using "2.IH" [OF _ en False] True ok nm l unfolding j by simp
      then show ?thesis using False unfolding j by (simp add: map_gen_def comp_def)
    qed
    have "map_gen fst (yield_from_each ?F (dir_entries es))
          = yield_from_each (\<lambda>en. map_gen fst (?F en)) (dir_entries es)"
      by (rule map_gen_yield_from_each)
    also have "\<dots> = yield_from_each (\<lambda>en. map_gen ?h (?G en)) (dir_entries es)"
      using step by (intro yield_from_each_cong) simp_all
    also have "\<dots> = map_gen ?h (yield_from_each ?G (dir_entries es))"
      by (rule map_gen_yield_from_each [symmetric])
    finally show ?thesis using True
      by (auto simp: map_gen_def split: prod.splits)
  qed
qed

lemma walk_from_root_ne:
  "tp \<noteq> [] \<Longrightarrow> it \<in> set (fst (walk_from d tp n)) \<Longrightarrow> fst it \<noteq> []"
proof (induction d tp n arbitrary: it rule: walk_from.induct)
  case (1 d tp)
  then show ?case by simp
next
  case (2 d tp r es)
  let ?F = "\<lambda>en. if d = 0 then ([], Some RecursionError)
                 else walk_from (d - 1) (posix_join tp (fst en)) (snd en)"
  have r: r using "2.prems"(2) by (auto split: if_splits)
  show ?case
  proof (cases "it \<in> set (fst (yield_from_each ?F (dir_entries es)))")
    case False
    then show ?thesis using "2.prems" r by (auto split: prod.splits)
  next
    case True
    then obtain en where en: "en \<in> set (dir_entries es)" "it \<in> set (fst (?F en))"
      using yield_from_each_set [of it ?F "dir_entries es"] by blast
    then have d: "d \<noteq> 0" by (auto split: if_splits)
    then show ?thesis
      using "2.IH" [OF _ en(1) d, of it] r en(2) "2.prems"(1) by (simp add: posix_join_ne)
  qed
qed

lemma descend_names_ok:
  "\<forall>n \<in> set st. names_ok n \<Longrightarrow> descend st cs = Inr m \<Longrightarrow> names_ok m"
proof (induction st cs rule: descend.induct)
  case (4 r es up c cs)
  then show ?case
    by (auto split: if_splits option.splits dest!: map_of_SomeD)
qed simp_all

lemma descend_err: "descend st cs = Inl err \<Longrightarrow> is_OSError err"
  by (induction st cs rule: descend.induct) (auto split: if_splits option.splits)

lemma os_lookup_names_ok: "names_ok (fs_root e) \<Longrightarrow> os_lookup e p = Inr n \<Longrightarrow> names_ok n"
  by (auto simp: os_lookup_def split: if_splits dest: descend_names_ok [rotated])

lemma os_lookup_err: "os_lookup e p = Inl err \<Longrightarrow> is_OSError err \<longleftrightarrow> nul \<notin> set p"
  by (auto simp: os_lookup_def split: if_splits dest: descend_err)

lemma walk_found: "os_lookup e tp = Inr n \<Longrightarrow> walk e tp = walk_from (depth_limit e) tp n"
  by (cases n) (simp_all add: walk_def scandir_def)

lemma walk_not_found:
  "os_lookup e tp = Inl err \<Longrightarrow> walk e tp = ([], if is_OSError err then None else Some err)"
  by (simp add: walk_def scandir_def)

lemma relpath_total: "p \<noteq> [] \<Longrightarrow> \<exists>rel. relpath e p start = Inr rel"
  by (simp add: relpath_def Let_def)

lemma package_name_total: "p \<noteq> [] \<Longrightarrow> package_name e src p = Inr (name_of e src p)"
  using relpath_total [of p e src] by (auto simp: package_name_def name_of_def)

lemma packages_loop_total:
  "\<forall>it \<in> set items. fst it \<noteq> [] \<Longrightarrow>
   packages_loop e src items werr = (map (\<lambda>it. name_of e src (fst it)) items, werr)"
proof (induction items)
  case Nil
  then show ?case by simp
next
  case (Cons it items)
  obtain root ds fs where it: "it = (root, ds, fs)" by (cases it)
  then show ?case using Cons by (simp add: package_name_total)
qed

lemma walk_items_ne: "it \<in> set (fst (walk e (top_path src))) \<Longrightarrow> fst it \<noteq> []"
proof (cases "os_lookup e (top_path src)")
  case (Inl err)
  assume "it \<in> set (fst (walk e (top_path src)))"
  then show ?thesis using Inl by (simp add: walk_not_found)
next
  case (Inr n)
  assume "it \<in> set (fst (walk e (top_path src)))"
  then show ?thesis using Inr walk_from_root_ne [OF top_path_ne] by (simp add: walk_found)
qed

lemma list_packages_walk:
  "list_packages e src = map_gen (\<lambda>it. name_of e src (fst it)) (walk e (top_path src))"
proof -
  obtain items werr where w: "walk e (top_path src) = (items, werr)"
    by (cases "walk e (top_path src)")
  then have "\<forall>it \<in> set items. fst it \<noteq> []" using walk_items_ne [of _ e src] by simp
  then show ?thesis using w
    by (simp add: list_packages_def top_path_def [symmetric] packages_loop_total)
qed

lemma name_of_below:
  assumes "isabs (cwd e)" and "\<forall>c \<in> set cs. proper_name c"
  shows "relpath e (top_path src @ concat (map ((#) sep) cs)) src
           = Inr (join_str [sep] (''indigo-stubs'' # cs))"
    and "name_of e src (top_path src @ concat (map ((#) sep) cs)) = dotted cs"
proof -
  have free: "\<forall>c \<in> set cs. sep \<notin> set c"
    using assms(2) by (auto simp: proper_name_def)
  have r: "relpath e (top_path src @ concat (map ((#) sep) cs)) src
        = Inr (''indigo-stubs'' @ concat (map ((#) sep) cs))"
    unfolding top_path_def by (rule relpath_below [OF assms(1) proper_indigo assms(2)])
  then show "relpath e (top_path src @ concat (map ((#) sep) cs)) src
           = Inr (join_str [sep] (''indigo-stubs'' # cs))"
    by (simp only: join_sep_concat)
  have "split_str sep (''indigo-stubs'' @ concat (map ((#) sep) cs)) = ''indigo-stubs'' # cs"
    using split_indigo free by (rule split_below)
  then show "name_of e src (top_path src @ concat (map ((#) sep) cs)) = dotted cs"
    using r by (simp add: name_of_def package_name_def dotted_def)
qed

lemma walk_roots_found:
  assumes wf: "wf_env e" and n: "os_lookup e (top_path src) = Inr n"
  shows "map_gen fst (walk e (top_path src))
         = map_gen (\<lambda>cs. top_path src @ concat (map ((#) sep) cs)) (visited (depth_limit e) n)"
proof -
  have ok: "names_ok n" using wf n by (auto simp: wf_env_def dest: os_lookup_names_ok)
  show ?thesis
    unfolding walk_found [OF n] using ok top_path_ne top_path_last by (rule walk_from_visited)
qed

lemma list_packages_found:
  assumes wf: "wf_env e" and n: "os_lookup e (top_path src) = Inr n"
  shows "list_packages e src = map_gen dotted (visited (depth_limit e) n)"
proof -
  let ?V = "visited (depth_limit e) n"
  have ok: "names_ok n" using wf n by (auto simp: wf_env_def dest: os_lookup_names_ok)
  have cwd: "isabs (cwd e)" using wf by (simp add: wf_env_def)
  have "list_packages e src = map_gen (name_of e src) (map_gen fst (walk e (top_path src)))"
    by (simp add: list_packages_walk map_gen_def comp_def)
  also have "\<dots> = map_gen (name_of e src) (map_gen (\<lambda>cs. top_path src @ concat (map ((#) sep) cs)) ?V)"
    by (simp only: walk_roots_found [OF wf n])
  also have "\<dots> = map_gen dotted ?V"
    using name_of_below(2) [OF cwd] visited_proper [OF ok]
    by (simp add: map_gen_def comp_def cong: map_cong)
  finally show ?thesis .
qed

lemma list_packages_not_found:
  "os_lookup e (top_path src) = Inl err \<Longrightarrow>
   list_packages e src = ([], if is_OSError err then None else Some err)"
  by (simp add: list_packages_walk walk_not_found)

lemma nul_top_path: "nul \<in> set (top_path src) \<longleftrightarrow> nul \<in> set src"
  by (auto simp: top_path_def posix_join_def nul_def sep_def startswith_def)

lemma set_join_str: "set (join_str d xs) \<subseteq> set d \<union> (\<Union>x \<in> set xs. set x)"
  by (induction d xs rule: join_str.induct) auto

lemma dotted_nil: "dotted [] = ''indigo-stubs''"
  by (simp add: dotted_def)

lemma dotted_cons: "dotted (c # cs) = ''indigo-stubs.'' @ join_str ''.'' (c # cs)"
  by (simp add: dotted_def)

lemma dotted_no_sep: "\<forall>c \<in> set cs. proper_name c \<Longrightarrow> sep \<notin> set (dotted cs)"
proof
  assume ok: "\<forall>c \<in> set cs. proper_name c" and "sep \<in> set (dotted cs)"
  then have "sep \<in> set ''.'' \<union> (\<Union>x \<in> set (''indigo-stubs'' # cs). set x)"
    using set_join_str [of "''.''" "''indigo-stubs'' # cs"] unfolding dotted_def by blast
  moreover have "sep \<notin> set ''.''" "sep \<notin> set ''indigo-stubs''" by (simp_all add: sep_def)
  ultimately show False using ok by (auto simp: proper_name_def)
qed

lemma dotted_snoc: "dotted (cs @ [c]) = dotted cs @ ''.'' @ c"
  by (induction cs) (simp_all add: dotted_def join_str_concat)

text \<open>
  The recursion limit at work: with two levels left below the top, a chain of four
  directories yields three names, and then \<open>RecursionError\<close> ends the generator.
\<close>

lemma walk_limit_example:
  "list_packages ((project [(''indigo-stubs'', chain_tree)])\<lparr>depth_limit := 2\<rparr>) []
   = ([''indigo-stubs'', ''indigo-stubs.a'', ''indigo-stubs.a.b''], Some RecursionError)"
  by code_simp

subsection \<open>The recursion of the walk\<close>

text \<open>
  In a well-formed file system the path \<open>new_path = join(top, dirname)\<close> resolves to the
  entry \<open>dirname\<close> of the directory at \<open>top\<close>, so that \<open>scandir\<close> of \<open>new_path\<close> is the
  listing of that entry, as \<open>walk_from\<close> has it.
\<close>

lemma descend_via:
  "descend st cs = (case descend_to st cs of Inl err \<Rightarrow> Inl err | Inr st' \<Rightarrow> Inr (hd st'))"
  by (induction st cs rule: descend.induct) (auto split: option.splits)

lemma descend_to_ne: "descend_to st cs = Inr st' \<Longrightarrow> st' \<noteq> []"
  by (induction st cs rule: descend_to.induct) (auto split: option.splits if_splits)

lemma descend_to_append:
  "descend_to st (cs @ ds)
   = (case descend_to st cs of Inl err \<Rightarrow> Inl err | Inr st' \<Rightarrow> descend_to st' ds)"
  by (induction st cs rule: descend_to.induct) (auto split: option.splits)

lemma descend_to_slash:
  assumes "descend_to st (cs @ [[]]) = Inr st'"
  shows "descend_to st cs = Inr st'"
proof -
  obtain st2 where s2: "descend_to st cs = Inr st2" "descend_to st2 [[]] = Inr st'"
    using assms by (auto simp: descend_to_append split: sum.splits)
  then obtain n up where "st2 = n # up" using descend_to_ne [OF s2(1)] by (cases st2) auto
  then show ?thesis using s2 by (cases n) auto
qed

lemma descend_to_entry:
  assumes "descend_to st cs = Inr (Dir r es # up)" and "proper_name nm"
    and "map_of es nm = Some child"
  shows "descend st (cs @ [nm]) = Inr child"
  using assms by (simp add: descend_via descend_to_append proper_name_def)

lemma lookup_entry:
  assumes tp: "os_lookup e tp = Inr (Dir r es)" and nm: "proper_name nm"
    and child: "map_of es nm = Some child"
  shows "os_lookup e (posix_join tp nm) = Inr child"
proof -
  let ?F = "\<lambda>p. if startswith p [sep] then p else cwd e @ [sep] @ p"
  let ?G = "if startswith tp [sep] then strip_sep tp else cwd e @ sep # strip_sep tp"
  have t: "nul \<notin> set tp" "tp \<noteq> []" and d: "descend [fs_root e] (split_str sep (?F tp)) = Inr (Dir r es)"
    using tp by (auto simp: os_lookup_def split: if_splits)
  have n: "nm \<noteq> []" "sep \<notin> set nm" "nul \<notin> set nm" using nm by (auto simp: proper_name_def)
  then have h: "\<not> startswith nm [sep]" by (cases nm) (auto simp: startswith_sep)
  have j: "posix_join tp nm = strip_sep tp @ sep # nm" using t(2) h by (rule posix_join_rel)
  have abs: "startswith (strip_sep tp @ sep # nm) [sep] \<longleftrightarrow> startswith tp [sep]"
    using t(2) by (cases tp) (auto simp: startswith_sep strip_sep_def)
  have F: "?F (strip_sep tp @ sep # nm) = ?G @ sep # nm" using abs by simp
  have FG: "?F tp = ?G \<or> ?F tp = ?G @ [sep]" using strip_sep_cases [of tp] by auto
  obtain st' where s: "descend_to [fs_root e] (split_str sep (?F tp)) = Inr st'" "hd st' = Dir r es"
    using d by (auto simp: descend_via split: sum.splits)
  have "descend_to [fs_root e] (split_str sep ?G) = Inr st'"
  proof (cases "?F tp = ?G")
    case True
    then show ?thesis using s(1) by simp
  next
    case False
    then have "?F tp = ?G @ [sep]" using FG by blast
    then have "split_str sep (?F tp) = split_str sep ?G @ [[]]"
      using split_str_append [of sep ?G "[]"] by simp
    then have "descend_to [fs_root e] (split_str sep ?G @ [[]]) = Inr st'"
      using s(1) by simp
    then show ?thesis by (rule descend_to_slash)
  qed
  moreover obtain up where "st' = Dir r es # up"
    using s(2) descend_to_ne [OF s(1)] by (cases st') auto
  ultimately have "descend [fs_root e] (split_str sep ?G @ [nm]) = Inr child"
    using nm child by (intro descend_to_entry) simp_all
  moreover have "split_str sep (?G @ sep # nm) = split_str sep ?G @ [nm]"
    using n(2) by (simp add: split_str_append split_str_nosep)
  moreover have "nul \<notin> set (strip_sep tp @ sep # nm)"
    using t(1) n(3) by (auto simp: strip_sep_def nul_def sep_def dest: in_set_butlastD)
  ultimately show ?thesis unfolding j os_lookup_def F by simp
qed

lemma walk_entry:
  assumes "os_lookup e tp = Inr (Dir r es)" and "names_ok (Dir r es)"
    and "en \<in> set (dir_entries es)"
  shows "os_lookup e (posix_join tp (fst en)) = Inr (snd en)"
    and "scandir e (posix_join tp (fst en)) = scandir_node (snd en)"
proof -
  have en: "(fst en, snd en) \<in> set es" using assms(3) by (simp add: dir_entries_def)
  then have "map_of es (fst en) = Some (snd en)" using assms(2) by simp
  moreover have "proper_name (fst en)" using en assms(2) by auto
  ultimately show "os_lookup e (posix_join tp (fst en)) = Inr (snd en)"
    using lookup_entry [OF assms(1)] by simp
  then show "scandir e (posix_join tp (fst en)) = scandir_node (snd en)"
    by (simp add: scandir_def)
qed

lemma walk_from_err: "snd (walk_from d tp n) = Some err \<Longrightarrow> err = RecursionError"
proof (induction d tp n rule: walk_from.induct)
  case (1 d tp)
  then show ?case by simp
next
  case (2 d tp r es)
  let ?F = "\<lambda>en. if d = 0 then ([], Some RecursionError)
                 else walk_from (d - 1) (posix_join tp (fst en)) (snd en)"
  have r: r and "snd (yield_from_each ?F (dir_entries es)) = Some err"
    using "2.prems" by (auto split: if_splits prod.splits)
  then obtain en where en: "en \<in> set (dir_entries es)" "snd (?F en) = Some err"
    using yield_from_each_err [of ?F "dir_entries es" err] by blast
  show ?case
  proof (cases "d = 0")
    case True
    then show ?thesis using en(2) by simp
  next
    case False
    then show ?thesis using "2.IH" [OF _ en(1) False] r en(2) by simp
  qed
qed

lemma walk_err:
  "snd (walk e tp) = Some err \<Longrightarrow> (err = ValueError \<and> nul \<in> set tp \<and> walk e tp = ([], Some ValueError)) \<or> (err = RecursionError \<and> nul \<notin> set tp)"
proof (cases "os_lookup e tp")
  case (Inl err')
  assume "snd (walk e tp) = Some err"
  then show ?thesis using Inl os_lookup_err [OF Inl]
    by (auto simp: walk_not_found os_lookup_def split: if_splits)
next
  case (Inr n)
  assume "snd (walk e tp) = Some err"
  then show ?thesis using Inr walk_from_err [of "depth_limit e" tp n err]
    by (auto simp: walk_found os_lookup_def split: if_splits)
qed




subsection \<open>Parents come first\<close>

lemma append_eq_mid:
  "xs @ ys = pre @ x # post \<Longrightarrow>
   (\<exists>post'. xs = pre @ x # post' \<and> post = post' @ ys)
   \<or> (\<exists>pre'. pre = xs @ pre' \<and> ys = pre' @ x # post)"
  by (auto simp: append_eq_append_conv2 append_eq_Cons_conv Cons_eq_append_conv)

lemma parents_before_nil: "parents_before base []"
  by (simp add: parents_before_def)

lemma parents_before_mono: "parents_before base L \<Longrightarrow> base \<subseteq> base' \<Longrightarrow> parents_before base' L"
  unfolding parents_before_def by blast

lemma parents_before_append:
  assumes "parents_before base L1" and "parents_before (base \<union> set L1) L2"
  shows "parents_before base (L1 @ L2)"
  unfolding parents_before_def
proof (intro allI impI)
  fix pre x post
  assume eq: "L1 @ L2 = pre @ x # post" and x: "x \<noteq> ([]::string list)"
  from append_eq_mid [OF eq] show "butlast x \<in> base \<union> set pre"
  proof
    assume "\<exists>post'. L1 = pre @ x # post' \<and> post = post' @ L2"
    then show ?thesis using assms(1) x unfolding parents_before_def by blast
  next
    assume "\<exists>pre'. pre = L1 @ pre' \<and> L2 = pre' @ x # post"
    then obtain pre' where p: "pre = L1 @ pre'" "L2 = pre' @ x # post" by blast
    then have "butlast x \<in> (base \<union> set L1) \<union> set pre'"
      using assms(2) x unfolding parents_before_def by blast
    then show ?thesis using p(1) by auto
  qed
qed

lemma parents_before_block:
  assumes "parents_before {} L"
  shows "parents_before {[]} (map ((#) nm) L)"
  unfolding parents_before_def
proof (intro allI impI)
  fix pre x post
  assume eq: "map ((#) nm) L = pre @ x # post" and x: "x \<noteq> ([]::string list)"
  then obtain pre0 x0 post0 where L: "L = pre0 @ x0 # post0" "pre = map ((#) nm) pre0" "x = nm # x0"
    by (auto simp: map_eq_append_conv map_eq_Cons_conv)
  show "butlast x \<in> {[]} \<union> set pre"
  proof (cases "x0 = []")
    case True
    then show ?thesis using L(3) by simp
  next
    case False
    then have "butlast x0 \<in> set pre0"
      using assms L(1) unfolding parents_before_def by blast
    then show ?thesis using L(2,3) False by simp
  qed
qed

lemma parents_before_each:
  "\<forall>x \<in> set xs. parents_before {[]} (fst (f x)) \<Longrightarrow>
   parents_before {[]} (fst (yield_from_each f xs))"
proof (induction xs)
  case Nil
  show ?case by (simp add: parents_before_nil)
next
  case (Cons x xs)
  obtain ys err where fx: "f x = (ys, err)" by (cases "f x")
  obtain zs err' where r: "yield_from_each f xs = (zs, err')" by (cases "yield_from_each f xs")
  have ys: "parents_before {[]} ys" using Cons.prems fx by simp
  have "parents_before {[]} (fst (yield_from_each f xs))"
    using Cons.prems by (intro Cons.IH) simp
  then have zs: "parents_before {[]} zs" using r by simp
  have sub: "{[]} \<subseteq> {[]} \<union> set ys" by (rule Un_upper1)
  have "parents_before ({[]} \<union> set ys) zs"
    using zs sub by (rule parents_before_mono)
  with ys have app: "parents_before {[]} (ys @ zs)" by (rule parents_before_append)
  show ?case
  proof (cases err)
    case None
    then show ?thesis using fx r app by simp
  next
    case (Some a)
    then show ?thesis using fx ys by simp
  qed
qed

lemma parents_before_top:
  assumes "parents_before {[]} L"
  shows "parents_before {} ([] # L)"
  unfolding parents_before_def
proof (intro allI impI)
  fix pre x post
  assume eq: "[] # L = pre @ x # post" and x: "x \<noteq> ([]::string list)"
  then obtain pre' where p: "pre = [] # pre'" "L = pre' @ x # post"
    by (cases pre) auto
  then have "butlast x \<in> {[]} \<union> set pre'"
    using assms x unfolding parents_before_def by blast
  then show "butlast x \<in> {} \<union> set pre" using p(1) by auto
qed

lemma visited_parents: "parents_before {} (fst (visited d n))"
proof (induction d n rule: visited.induct)
  case (1 d)
  then show ?case by (simp add: parents_before_nil)
next
  case (2 d r es)
  let ?G = "\<lambda>en. if d = 0 then ([], Some RecursionError)
                 else map_gen ((#) (fst en)) (visited (d - 1) (snd en))"
  show ?case
  proof (cases r)
    case False
    then show ?thesis by (simp add: parents_before_nil)
  next
    case True
    have "parents_before {[]} (fst (?G en))" if "en \<in> set (dir_entries es)" for en
      using "2.IH" [OF _ that] True
      by (cases "d = 0") (simp_all add: parents_before_nil parents_before_block map_gen_def)
    then have "parents_before {[]} (fst (yield_from_each ?G (dir_entries es)))"
      by (intro parents_before_each) simp
    then show ?thesis using True
      by (auto simp: parents_before_top split: prod.splits)
  qed
qed

lemma visited_top_only:
  "j < length (fst (visited d n)) \<Longrightarrow> fst (visited d n) ! j = [] \<longleftrightarrow> j = 0"
proof (cases n)
  case File
  assume "j < length (fst (visited d n))"
  then show ?thesis using File by simp
next
  case (Dir r es)
  let ?G = "\<lambda>en. if d = 0 then ([], Some RecursionError)
                 else map_gen ((#) (fst en)) (visited (d - 1) (snd en))"
  assume j: "j < length (fst (visited d n))"
  then have r: r using Dir by (auto split: if_splits)
  have ne: "x \<noteq> []" if "x \<in> set (fst (yield_from_each ?G (dir_entries es)))" for x
    using yield_from_each_set [OF that] by (auto simp: map_gen_def split: if_splits)
  have V: "fst (visited d n) = [] # fst (yield_from_each ?G (dir_entries es))"
    using Dir r by (simp split: prod.splits)
  show ?thesis
  proof (cases j)
    case 0
    then show ?thesis using V by simp
  next
    case (Suc k)
    then have "fst (visited d n) ! j \<in> set (fst (yield_from_each ?G (dir_entries es)))"
      using j V by simp
    then show ?thesis using ne Suc by auto
  qed
qed

lemma ancestors_before:
  assumes "parents_before {} L"
  shows "L = pre @ x # post \<Longrightarrow> m < length x \<Longrightarrow> take m x \<in> set pre"
proof (induction "length x" arbitrary: x pre post rule: less_induct)
  case less
  have x: "x \<noteq> []" using less.prems(2) by auto
  then have b: "butlast x \<in> set pre"
    using assms less.prems(1) unfolding parents_before_def by blast
  show ?case
  proof (cases "m = length x - 1")
    case True
    then show ?thesis using b by (simp add: butlast_conv_take)
  next
    case False
    then have m: "m < length (butlast x)" using less.prems(2) by simp
    obtain pre1 post1 where p: "pre = pre1 @ butlast x # post1"
      using b by (auto dest: split_list)
    have "L = pre1 @ butlast x # (post1 @ x # post)"
      using less.prems(1) p by simp
    then have "take m (butlast x) \<in> set pre1"
      using less.hyps [of "butlast x" pre1 "post1 @ x # post"] x m by simp
    moreover have "take m (butlast x) = take m x"
      using m by (simp add: take_butlast)
    ultimately show ?thesis using p by simp
  qed
qed

lemma dotted_prefix:
  assumes free: "\<forall>c \<in> set x. CHR ''.'' \<notin> set c"
    and eq: "dotted x = P @ ''.'' @ c"
  shows "\<exists>m < length x. P = dotted (take m x)"
proof -
  let ?d = "CHR ''.''"
  let ?xs = "''indigo-stubs'' # x"
  have f: "\<forall>y \<in> set ?xs. ?d \<notin> set y" using free by simp
  have "split_str ?d (join_str [?d] ?xs) = ?xs"
    using f by (intro split_join) simp_all
  moreover have "join_str [?d] ?xs = P @ ?d # c" using eq by (simp add: dotted_def)
  ultimately have xs: "?xs = split_str ?d P @ split_str ?d c"
    by (simp add: split_str_append)
  let ?sp = "split_str ?d P"
  have len: "length ?sp + length (split_str ?d c) = Suc (length x)"
    using arg_cong [OF xs, of length] by simp
  have sc: "0 < length (split_str ?d c)" "0 < length ?sp" by simp_all
  then have m: "length ?sp - 1 < length x" using len by linarith
  have "?sp = take (length ?sp) ?xs" using xs by simp
  also have "\<dots> = ''indigo-stubs'' # take (length ?sp - 1) x"
    using sc(2) by (cases "length ?sp") simp_all
  finally have "join_str [?d] ?sp = dotted (take (length ?sp - 1) x)"
    by (simp add: dotted_def)
  then have "P = dotted (take (length ?sp - 1) x)" by (simp add: join_split)
  then show ?thesis using m by blast
qed

section \<open>The claims\<close>

text \<open>
  In the statements below \<open>e\<close> is the environment of the call (file system, working
  directory and recursion limit) and \<open>posix_join src_path ''indigo-stubs''\<close> is the path
  that is walked; \<open>list_packages e src_path\<close> is the pair of the names yielded and of the
  exception that ended the generator, if any; \<open>fst (visited (depth_limit e) t)\<close> lists the
  directories of the tree \<open>t\<close> that the walk visits, each by the entry names that lead to it
  from \<open>indigo-stubs\<close>.
\<close>

text \<open>
  Claim C1. In a well-formed environment and for every \<open>src_path\<close>, the directory that
  the walk visits at position \<open>j\<close>, reached from \<open>indigo-stubs\<close> by the entry names \<open>cs\<close>,
  is walked under the root \<open>join(src_path, "indigo-stubs")\<close> followed by \<open>cs\<close> with
  separators; \<open>relpath\<close> of that root with respect to \<open>src_path\<close> is \<open>"indigo-stubs"\<close>
  and \<open>cs\<close> joined with separators, and the name yielded at position \<open>j\<close> is the same
  components joined with dots. For the directory \<open>a/b\<close> the relative path is
  \<open>"indigo-stubs/a/b"\<close> and the name is exactly \<open>"indigo-stubs.a.b"\<close>.
\<close>

theorem naming_rule:
  assumes "wf_env e"
    and "os_lookup e (posix_join src_path ''indigo-stubs'') = Inr t"
    and "j < length (fst (visited (depth_limit e) t))"
    and "fst (visited (depth_limit e) t) ! j = cs"
  shows "j < length (fst (walk e (posix_join src_path ''indigo-stubs'')))
         \<and> fst (fst (walk e (posix_join src_path ''indigo-stubs'')) ! j)
             = posix_join src_path ''indigo-stubs'' @ concat (map ((#) sep) cs)
         \<and> relpath e (fst (fst (walk e (posix_join src_path ''indigo-stubs'')) ! j)) src_path
             = Inr (join_str [sep] (''indigo-stubs'' # cs))
         \<and> j < length (fst (list_packages e src_path))
         \<and> fst (list_packages e src_path) ! j = join_str ''.'' (''indigo-stubs'' # cs)
         \<and> (cs = [''a'', ''b''] \<longrightarrow>
               relpath e (fst (fst (walk e (posix_join src_path ''indigo-stubs'')) ! j)) src_path
                 = Inr ''indigo-stubs/a/b''
               \<and> fst (list_packages e src_path) ! j = ''indigo-stubs.a.b'')"
proof -
  let ?V = "fst (visited (depth_limit e) t)"
  let ?W = "fst (walk e (top_path src_path))"
  let ?h = "\<lambda>cs. top_path src_path @ concat (map ((#) sep) cs)"
  have t: "os_lookup e (top_path src_path) = Inr t" using assms(2) by (simp add: top_path_def)
  have ok: "names_ok t" using assms(1) t by (auto simp: wf_env_def dest: os_lookup_names_ok)
  have cwd: "isabs (cwd e)" using assms(1) by (simp add: wf_env_def)
  have "cs \<in> set ?V" using assms(3,4) by (auto simp: in_set_conv_nth)
  then have p: "\<forall>c \<in> set cs. proper_name c" using visited_proper [OF ok] by blast
  have roots: "map fst ?W = map ?h ?V"
    using walk_roots_found [OF assms(1) t] by (simp add: map_gen_def)
  then have len: "length ?W = length ?V" by (rule map_eq_imp_length_eq)
  then have jW: "j < length ?W" using assms(3) by simp
  have "map fst ?W ! j = map ?h ?V ! j" using roots by simp
  then have root: "fst (?W ! j) = ?h cs" using jW assms(3,4) by simp
  have rel: "relpath e (fst (?W ! j)) src_path = Inr (join_str [sep] (''indigo-stubs'' # cs))"
    unfolding root using cwd p by (rule name_of_below(1))
  have names: "fst (list_packages e src_path) = map dotted ?V"
    using list_packages_found [OF assms(1) t] by (simp add: map_gen_def)
  then have nm: "fst (list_packages e src_path) ! j = join_str ''.'' (''indigo-stubs'' # cs)"
    using assms(3,4) by (simp add: dotted_def)
  have ab: "join_str [sep] (''indigo-stubs'' # [''a'', ''b'']) = ''indigo-stubs/a/b''"
    "join_str ''.'' (''indigo-stubs'' # [''a'', ''b'']) = ''indigo-stubs.a.b''"
    by (simp_all add: sep_def)
  have jN: "j < length (fst (list_packages e src_path))" using names assms(3) by simp
  have special: "cs = [''a'', ''b''] \<longrightarrow>
               relpath e (fst (?W ! j)) src_path = Inr ''indigo-stubs/a/b''
               \<and> fst (list_packages e src_path) ! j = ''indigo-stubs.a.b''"
  proof
    assume c: "cs = [''a'', ''b'']"
    show "relpath e (fst (?W ! j)) src_path = Inr ''indigo-stubs/a/b''
          \<and> fst (list_packages e src_path) ! j = ''indigo-stubs.a.b''"
      using rel nm unfolding c ab by (rule conjI)
  qed
  show ?thesis
    using jW root rel jN nm special unfolding top_path_def by (intro conjI)
qed

text \<open>
  An instance, with an absolute \<open>src_path\<close> that ends in a separator: the directory
  \<open>indigo-stubs/a/b\<close> below \<open>/proj\<close>, third in the walk.
\<close>

theorem naming_rule_witness:
  "wf_env (project [(''indigo-stubs'', a_b_tree)])
   \<and> fst (visited 995 a_b_tree) ! 2 = [''a'', ''b'']
   \<and> fst (fst (walk (project [(''indigo-stubs'', a_b_tree)]) (posix_join ''/proj/'' ''indigo-stubs'')) ! 2)
       = ''/proj/indigo-stubs/a/b''
   \<and> relpath (project [(''indigo-stubs'', a_b_tree)]) ''/proj/indigo-stubs/a/b'' ''/proj/''
       = Inr ''indigo-stubs/a/b''
   \<and> fst (list_packages (project [(''indigo-stubs'', a_b_tree)]) ''/proj/'') ! 2 = ''indigo-stubs.a.b''"
proof -
  let ?e = "project [(''indigo-stubs'', a_b_tree)]"
  have a: "wf_env ?e" by code_simp
  have b: "os_lookup ?e (posix_join ''/proj/'' ''indigo-stubs'') = Inr a_b_tree" by code_simp
  have d: "depth_limit ?e = 995" by (simp add: project_def)
  have c: "2 < length (fst (visited (depth_limit ?e) a_b_tree))" unfolding d by code_simp
  have f: "fst (visited (depth_limit ?e) a_b_tree) ! 2 = [''a'', ''b'']" unfolding d by code_simp
  have g: "fst (fst (walk ?e (posix_join ''/proj/'' ''indigo-stubs'')) ! 2) = ''/proj/indigo-stubs/a/b''"
    by code_simp
  have f': "fst (visited 995 a_b_tree) ! 2 = [''a'', ''b'']" by code_simp
  note n = naming_rule [OF a b c f]
  have k: "fst (list_packages ?e ''/proj/'') ! 2 = ''indigo-stubs.a.b''"
    using n by blast
  have "relpath ?e (fst (fst (walk ?e (posix_join ''/proj/'' ''indigo-stubs'')) ! 2)) ''/proj/''
        = Inr ''indigo-stubs/a/b''"
    using n by blast
  then have r: "relpath ?e ''/proj/indigo-stubs/a/b'' ''/proj/'' = Inr ''indigo-stubs/a/b''"
    unfolding g .
  show ?thesis using a f' g r k by (intro conjI)
qed

text \<open>
  Claim C2. For every root that is a file system path and under which no directory
  \<open>indigo-stubs\<close> exists (nothing there, or something that is not a directory),
  \<open>list_packages\<close> yields nothing and raises no error.
\<close>

theorem empty_without_directory:
  assumes "fs_path src_path"
    and "\<not> dir_exists e (posix_join src_path ''indigo-stubs'')"
  shows "list_packages e src_path = ([], None)"
proof (cases "os_lookup e (top_path src_path)")
  case (Inl err)
  have "is_OSError err"
    using os_lookup_err [OF Inl] assms(1) by (simp add: nul_top_path fs_path_def)
  then show ?thesis using list_packages_not_found [OF Inl] by simp
next
  case (Inr n)
  then have "n = File" using assms(2) by (cases n) (simp_all add: dir_exists_def top_path_def)
  then show ?thesis using Inr by (simp add: list_packages_walk walk_found)
qed

text \<open>
  An instance: \<open>/proj\<close> holds \<open>setup.py\<close> only.
\<close>

theorem empty_without_directory_witness:
  "fs_path ''/proj'' \<and> \<not> dir_exists (project []) (posix_join ''/proj'' ''indigo-stubs'')
   \<and> list_packages (project []) ''/proj'' = ([], None)"
proof -
  have a: "fs_path ''/proj''" by (simp add: fs_path_def nul_def)
  have b: "\<not> dir_exists (project []) (posix_join ''/proj'' ''indigo-stubs'')" by code_simp
  show ?thesis using a b empty_without_directory [OF a b] by simp
qed




text \<open>
  Claim C4, amended. Whenever the directory \<open>indigo-stubs\<close> exists and can be listed,
  for every \<open>src_path\<close>, the empty default among them, the walk starts with the top
  directory itself, the expression that \<open>list_packages\<close> yields for it is exactly
  \<open>"indigo-stubs"\<close>, with no separator before or after, and this name is among the
  names yielded.
\<close>

theorem root_name:
  assumes "wf_env e"
    and "os_lookup e (posix_join src_path ''indigo-stubs'') = Inr (Dir True es)"
  shows "(\<exists>ds fs rest werr. walk e (posix_join src_path ''indigo-stubs'')
             = ((posix_join src_path ''indigo-stubs'', ds, fs) # rest, werr))
         \<and> package_name e src_path (posix_join src_path ''indigo-stubs'') = Inr ''indigo-stubs''
         \<and> ''indigo-stubs'' \<in> set (fst (list_packages e src_path))"
proof -
  have t: "os_lookup e (top_path src_path) = Inr (Dir True es)"
    using assms(2) by (simp add: top_path_def)
  have cwd: "isabs (cwd e)" using assms(1) by (simp add: wf_env_def)
  have "name_of e src_path (top_path src_path @ concat (map ((#) sep) [])) = dotted []"
    using cwd by (intro name_of_below(2)) simp_all
  then have pn: "package_name e src_path (top_path src_path) = Inr ''indigo-stubs''"
    using package_name_total [OF top_path_ne, of e src_path src_path] by (simp add: dotted_nil)
  have "list_packages e src_path = map_gen dotted (visited (depth_limit e) (Dir True es))"
    using assms(1) t by (rule list_packages_found)
  then have mem: "''indigo-stubs'' \<in> set (fst (list_packages e src_path))"
    by (simp add: map_gen_def dotted_nil split: prod.splits)
  have "\<exists>ds fs rest werr. walk e (top_path src_path) = ((top_path src_path, ds, fs) # rest, werr)"
    unfolding walk_found [OF t] by (simp split: prod.splits)
  then show ?thesis using pn mem unfolding top_path_def by (intro conjI)
qed

text \<open>
  An instance, with an absolute \<open>src_path\<close> that ends in a separator.
\<close>

theorem root_name_witness:
  "wf_env (project [(''indigo-stubs'', foo_bar_tree)])
   \<and> package_name (project [(''indigo-stubs'', foo_bar_tree)]) ''/proj/'' (posix_join ''/proj/'' ''indigo-stubs'')
       = Inr ''indigo-stubs''
   \<and> ''indigo-stubs'' \<in> set (fst (list_packages (project [(''indigo-stubs'', foo_bar_tree)]) ''/proj/''))"
proof -
  let ?e = "project [(''indigo-stubs'', foo_bar_tree)]"
  have a: "wf_env ?e" by code_simp
  have b: "os_lookup ?e (posix_join ''/proj/'' ''indigo-stubs'')
           = Inr (Dir True [(''__init__.pyi'', File),
                            (''foo'', Dir True [(''bar'', Dir True [(''x.pyi'', File)])])])"
    by code_simp
  note n = root_name [OF a b]
  show ?thesis using a n by (intro conjI) blast+
qed

text \<open>
  As written, whenever the directory exists, the property fails: a directory that
  cannot be listed yields nothing, not even its own name.
\<close>

theorem root_name_counterexample:
  "dir_exists (project [(''indigo-stubs'', locked_tree)]) (posix_join [] ''indigo-stubs'')
   \<and> ''indigo-stubs'' \<notin> set (fst (list_packages (project [(''indigo-stubs'', locked_tree)]) []))"
  by code_simp




text \<open>
  Claim C6. In every environment the arguments with which \<open>setup\<close> is called are the
  literals \<open>name = "indigo-stubs"\<close>, \<open>version = "3.0.0"\<close>, the literal \<open>url\<close>, \<open>author\<close>,
  \<open>author_email\<close> and \<open>description\<close>, \<open>install_requires = []\<close> and
  \<open>package_data = {"": ["*.pyi"]}\<close> (the key \<open>""\<close> stands for every package), next to
  the names discovered: only \<open>packages\<close> depends on the file system. The call is reached
  unless the walk has run into the recursion limit.
\<close>

theorem setup_metadata:
  "setup_call e =
     (if snd (list_packages e []) = None
      then Inr \<lparr> name = ''indigo-stubs'', version = ''3.0.0'',
                 url = ''https://github.com/mypackage.git'', author = ''Author Name'',
                 author_email = ''author@gmail.com'',
                 description = ''Description of my package'',
                 install_requires = [], packages = fst (list_packages e []),
                 package_data = [([], [''*.pyi''])] \<rparr>
      else Inl RecursionError)"
proof (cases "snd (list_packages e [])")
  case None
  then have "list_of (list_packages e []) = Inr (fst (list_packages e []))"
    by (cases "list_packages e []") simp
  then show ?thesis using None by (simp add: setup_call_def)
next
  case (Some err)
  then have "snd (walk e (top_path [])) = Some err"
    by (simp add: list_packages_walk map_gen_def)
  then have "err = RecursionError"
    using walk_err [of e "top_path []" err] by (auto simp: nul_top_path)
  then have "list_of (list_packages e []) = Inl RecursionError"
    using Some by (cases "list_packages e []") simp
  then show ?thesis using Some by (simp add: setup_call_def)
qed

text \<open>
  An instance: the arguments for the project with \<open>foo\<close> and \<open>foo/bar\<close>.
\<close>

theorem setup_metadata_witness:
  "setup_call (project [(''indigo-stubs'', foo_bar_tree)]) =
     Inr \<lparr> name = ''indigo-stubs'', version = ''3.0.0'',
           url = ''https://github.com/mypackage.git'', author = ''Author Name'',
           author_email = ''author@gmail.com'',
           description = ''Description of my package'',
           install_requires = [],
           packages = [''indigo-stubs'', ''indigo-stubs.foo'', ''indigo-stubs.foo.bar''],
           package_data = [([], [''*.pyi''])] \<rparr>"
proof -
  have l: "list_packages (project [(''indigo-stubs'', foo_bar_tree)]) []
        = ([''indigo-stubs'', ''indigo-stubs.foo'', ''indigo-stubs.foo.bar''], None)"
    by code_simp
  show ?thesis
    using setup_metadata [of "project [(''indigo-stubs'', foo_bar_tree)]"] unfolding l by simp
qed

text \<open>
  Claim C7, amended. \<open>list_packages\<close> ends with exactly the exception with which
  \<open>os.walk\<close> ends, if any, and with none otherwise, after the names of the items that the
  walk has yielded: nothing is caught, wrapped, translated or retried. Such a failure
  is \<open>ValueError\<close> for a path with a NUL character, before anything is yielded; a
  directory that denies listing is not such a failure, since \<open>os.walk\<close> itself ignores
  the \<open>OSError\<close> of \<open>scandir\<close> and skips the directory.
\<close>

theorem walk_failure_propagates:
  "snd (list_packages e src_path) = snd (walk e (posix_join src_path ''indigo-stubs''))
   \<and> list_packages e src_path
       = (map (\<lambda>it. name_of e src_path (fst it)) (fst (walk e (posix_join src_path ''indigo-stubs''))),
          snd (walk e (posix_join src_path ''indigo-stubs'')))
   \<and> (snd (walk e (posix_join src_path ''indigo-stubs'')) = Some ValueError
        \<longrightarrow> list_packages e src_path = ([], Some ValueError))"
proof -
  have lp: "list_packages e src_path
        = (map (\<lambda>it. name_of e src_path (fst it)) (fst (walk e (top_path src_path))),
           snd (walk e (top_path src_path)))"
    by (simp add: list_packages_walk map_gen_def)
  have "walk e (top_path src_path) = ([], Some ValueError)"
    if "snd (walk e (top_path src_path)) = Some ValueError"
    using walk_err [OF that] by auto
  then show ?thesis using lp by (auto simp: top_path_def)
qed

text \<open>
  An instance: a root path that consists of the NUL character.
\<close>

theorem walk_failure_propagates_witness:
  "snd (walk (project [(''indigo-stubs'', foo_bar_tree)]) (posix_join [nul] ''indigo-stubs''))
     = Some ValueError
   \<and> list_packages (project [(''indigo-stubs'', foo_bar_tree)]) [nul] = ([], Some ValueError)"
proof -
  have a: "snd (walk (project [(''indigo-stubs'', foo_bar_tree)]) (posix_join [nul] ''indigo-stubs''))
           = Some ValueError"
    by code_simp
  show ?thesis
    using a walk_failure_propagates [of "project [(''indigo-stubs'', foo_bar_tree)]" "[nul]"]
    by blast
qed

text \<open>
  As written, with permission denied on a subdirectory as an example of a failure that
  surfaces, the property fails: \<open>scandir\<close> of \<open>indigo-stubs/locked\<close> raises
  \<open>PermissionError\<close>, and \<open>list_packages\<close> ends without an exception, after the name of
  the top alone.
\<close>

theorem permission_denied_counterexample:
  "scandir (project [(''indigo-stubs'', locked_inner_tree)]) ''indigo-stubs/locked''
     = Inl PermissionError
   \<and> list_packages (project [(''indigo-stubs'', locked_inner_tree)]) []
     = ([''indigo-stubs''], None)"
  by code_simp

text \<open>
  Claim C8. In a well-formed environment, for every \<open>src_path\<close> (the empty default
  among them) and whether or not the directory exists, every name that \<open>list_packages\<close>
  yields is \<open>"indigo-stubs"\<close> or starts with \<open>"indigo-stubs."\<close>, and has no separator in
  it.
\<close>

theorem names_prefixed:
  assumes "wf_env e" and "x \<in> set (fst (list_packages e src_path))"
  shows "(x = ''indigo-stubs'' \<or> startswith x ''indigo-stubs.'') \<and> sep \<notin> set x"
proof (cases "os_lookup e (top_path src_path)")
  case (Inl err)
  then show ?thesis using assms(2) list_packages_not_found [OF Inl] by simp
next
  case (Inr n)
  have ok: "names_ok n" using assms(1) Inr by (auto simp: wf_env_def dest: os_lookup_names_ok)
  obtain cs where cs: "cs \<in> set (fst (visited (depth_limit e) n))" "x = dotted cs"
    using assms(2) list_packages_found [OF assms(1) Inr] by (auto simp: map_gen_def)
  have p: "\<forall>c \<in> set cs. proper_name c" using visited_proper [OF ok cs(1)] by simp
  have "dotted cs = ''indigo-stubs'' \<or> startswith (dotted cs) ''indigo-stubs.''"
    by (cases cs) (simp_all add: dotted_nil dotted_cons startswith_def)
  then show ?thesis using dotted_no_sep [OF p] cs(2) by simp
qed

text \<open>
  An instance: the name of \<open>indigo-stubs/foo/bar\<close>.
\<close>

theorem names_prefixed_witness:
  "wf_env (project [(''indigo-stubs'', foo_bar_tree)])
   \<and> ''indigo-stubs.foo.bar'' \<in> set (fst (list_packages (project [(''indigo-stubs'', foo_bar_tree)]) []))
   \<and> startswith ''indigo-stubs.foo.bar'' ''indigo-stubs.''
   \<and> sep \<notin> set ''indigo-stubs.foo.bar''"
proof -
  let ?e = "project [(''indigo-stubs'', foo_bar_tree)]"
  have a: "wf_env ?e" by code_simp
  have b: "''indigo-stubs.foo.bar'' \<in> set (fst (list_packages ?e []))" by code_simp
  have c: "''indigo-stubs.foo.bar'' \<noteq> ''indigo-stubs''" by simp
  show ?thesis using a b c names_prefixed [OF a b] by simp
qed

text \<open>
  Claim C9, amended. Whenever the directory \<open>indigo-stubs\<close> exists and can be listed,
  the sequence of \<open>list_packages\<close> is not empty and its first element is
  \<open>"indigo-stubs"\<close>.
\<close>

theorem root_first:
  assumes "wf_env e"
    and "os_lookup e (posix_join src_path ''indigo-stubs'') = Inr (Dir True es)"
  shows "fst (list_packages e src_path) \<noteq> []
         \<and> hd (fst (list_packages e src_path)) = ''indigo-stubs''"
proof -
  have t: "os_lookup e (top_path src_path) = Inr (Dir True es)"
    using assms(2) by (simp add: top_path_def)
  show ?thesis using list_packages_found [OF assms(1) t]
    by (simp add: dotted_nil map_gen_def split: prod.splits)
qed

text \<open>
  An instance, with a relative \<open>src_path\<close> through the parent directory.
\<close>

theorem root_first_witness:
  "wf_env (project [(''indigo-stubs'', a_b_tree)])
   \<and> hd (fst (list_packages (project [(''indigo-stubs'', a_b_tree)]) ''../proj'')) = ''indigo-stubs''"
proof -
  let ?e = "project [(''indigo-stubs'', a_b_tree)]"
  have a: "wf_env ?e" by code_simp
  have b: "os_lookup ?e (posix_join ''../proj'' ''indigo-stubs'')
           = Inr (Dir True [(''a'', Dir True [(''b'', Dir True [])])])"
    by code_simp
  show ?thesis using a root_first [OF a b] by simp
qed

text \<open>
  As written, whenever the directory exists, the property fails: the sequence of a
  directory that cannot be listed is empty.
\<close>

theorem root_first_counterexample:
  "os_lookup (project [(''indigo-stubs'', locked_tree)]) (posix_join [] ''indigo-stubs'')
     = Inr locked_tree
   \<and> fst (list_packages (project [(''indigo-stubs'', locked_tree)]) []) = []"
  by code_simp

text \<open>
  Claim C10, amended. In every tree a subdirectory is emitted after its parent directory:
  every name but the first is the name at an earlier position, that of the parent,
  followed by a dot and the entry name of the subdirectory. And for every emitted name of
  the form \<open>P + "." + c\<close> that belongs to a directory whose entry names on the way from
  \<open>indigo-stubs\<close> have no dot, the name \<open>P\<close> occurs at an earlier position.
\<close>

theorem parent_before_child:
  assumes "wf_env e"
    and "os_lookup e (posix_join src_path ''indigo-stubs'') = Inr t"
    and "j < length (fst (list_packages e src_path))"
  shows "(0 < j \<longrightarrow>
           (\<exists>i < j. \<exists>c. proper_name c
              \<and> fst (visited (depth_limit e) t) ! j = fst (visited (depth_limit e) t) ! i @ [c]
              \<and> fst (list_packages e src_path) ! j
                  = fst (list_packages e src_path) ! i @ ''.'' @ c))
         \<and> ((\<forall>x \<in> set (fst (visited (depth_limit e) t) ! j). CHR ''.'' \<notin> set x) \<longrightarrow>
              (\<forall>P c. fst (list_packages e src_path) ! j = P @ ''.'' @ c \<longrightarrow>
                     (\<exists>i < j. fst (list_packages e src_path) ! i = P)))"
proof (intro conjI impI allI)
  let ?V = "fst (visited (depth_limit e) t)"
  have t: "os_lookup e (top_path src_path) = Inr t" using assms(2) by (simp add: top_path_def)
  have ok: "names_ok t" using assms(1) t by (auto simp: wf_env_def dest: os_lookup_names_ok)
  have names: "fst (list_packages e src_path) = map dotted ?V"
    using list_packages_found [OF assms(1) t] by (simp add: map_gen_def)
  have j: "j < length ?V" using assms(3) names by simp
  have V: "?V = take j ?V @ ?V ! j # drop (Suc j) ?V" using j by (rule id_take_nth_drop)
  {
    assume pos: "0 < j"
    then have ne: "?V ! j \<noteq> []" using visited_top_only [OF j] by simp
    then have "butlast (?V ! j) \<in> {} \<union> set (take j ?V)"
      using visited_parents [of "depth_limit e" t] V unfolding parents_before_def by blast
    then obtain i where i: "i < j" "?V ! i = butlast (?V ! j)"
      using j by (auto simp: in_set_conv_nth)
    have snoc: "?V ! j = ?V ! i @ [last (?V ! j)]" using ne i(2) by simp
    have "?V ! j \<in> set ?V" using j by simp
    moreover have "last (?V ! j) \<in> set (?V ! j)" using ne by simp
    ultimately have p: "proper_name (last (?V ! j))" using visited_proper [OF ok] by blast
    have "dotted (?V ! j) = dotted (?V ! i) @ ''.'' @ last (?V ! j)"
      using snoc dotted_snoc [of "?V ! i" "last (?V ! j)"] by simp
    then have "fst (list_packages e src_path) ! j
               = fst (list_packages e src_path) ! i @ ''.'' @ last (?V ! j)"
      using names j i(1) by simp
    then show "\<exists>i < j. \<exists>c. proper_name c \<and> ?V ! j = ?V ! i @ [c]
                \<and> fst (list_packages e src_path) ! j = fst (list_packages e src_path) ! i @ ''.'' @ c"
      using i(1) p snoc by blast
  }
  {
    fix P c
    assume free: "\<forall>x \<in> set (?V ! j). CHR ''.'' \<notin> set x"
      and eq: "fst (list_packages e src_path) ! j = P @ ''.'' @ c"
    have "dotted (?V ! j) = P @ ''.'' @ c" using eq names j by simp
    then obtain m where m: "m < length (?V ! j)" "P = dotted (take m (?V ! j))"
      using dotted_prefix [OF free] by blast
    have "take m (?V ! j) \<in> set (take j ?V)"
      using ancestors_before [OF visited_parents V m(1)] .
    then obtain i where i: "i < j" "?V ! i = take m (?V ! j)"
      using j by (auto simp: in_set_conv_nth)
    then have "fst (list_packages e src_path) ! i = P" using names j m(2) by simp
    then show "\<exists>i < j. fst (list_packages e src_path) ! i = P" using i(1) by blast
  }
qed

text \<open>
  An instance, in a tree with the directories \<open>x.y\<close> and \<open>a/b\<close>: \<open>"indigo-stubs.a.b"\<close>
  comes after \<open>"indigo-stubs.a"\<close>, and \<open>"indigo-stubs.x.y"\<close> after the name of its parent,
  the top.
\<close>

theorem parent_before_child_witness:
  "wf_env (project [(''indigo-stubs'', mixed_tree)])
   \<and> fst (list_packages (project [(''indigo-stubs'', mixed_tree)]) []) ! 1 = ''indigo-stubs.x.y''
   \<and> fst (list_packages (project [(''indigo-stubs'', mixed_tree)]) []) ! 3 = ''indigo-stubs.a'' @ ''.'' @ ''b''
   \<and> (\<exists>i < 3. fst (list_packages (project [(''indigo-stubs'', mixed_tree)]) []) ! i = ''indigo-stubs.a'')
   \<and> (\<exists>i < 1. \<exists>c. fst (list_packages (project [(''indigo-stubs'', mixed_tree)]) []) ! 1
                     = fst (list_packages (project [(''indigo-stubs'', mixed_tree)]) []) ! i @ ''.'' @ c)"
proof -
  let ?e = "project [(''indigo-stubs'', mixed_tree)]"
  have a: "wf_env ?e" by code_simp
  have b: "os_lookup ?e (posix_join [] ''indigo-stubs'') = Inr mixed_tree" by code_simp
  have dl: "depth_limit ?e = 995" by (simp add: project_def)
  have l3: "3 < length (fst (list_packages ?e []))" by code_simp
  have l1: "1 < length (fst (list_packages ?e []))" by code_simp
  have n1: "fst (list_packages ?e []) ! 1 = ''indigo-stubs.x.y''" by code_simp
  have n3: "fst (list_packages ?e []) ! 3 = ''indigo-stubs.a'' @ ''.'' @ ''b''" by code_simp
  have v3: "\<forall>x \<in> set (fst (visited (depth_limit ?e) mixed_tree) ! 3). CHR ''.'' \<notin> set x"
    unfolding dl by code_simp
  have p3: "\<exists>i < 3. fst (list_packages ?e []) ! i = ''indigo-stubs.a''"
    using parent_before_child [OF a b l3] v3 n3 by blast
  have pos: "0 < (1::nat)" by simp
  note n = parent_before_child [OF a b l1, THEN conjunct1, THEN mp, OF pos]
  have p1: "\<exists>i < 1. \<exists>c. fst (list_packages ?e []) ! 1 = fst (list_packages ?e []) ! i @ ''.'' @ c"
    using n by blast
  show ?thesis using a n1 n3 p3 p1 by (intro conjI)
qed

text \<open>
  As written, for every name of that form, the property fails: the directory \<open>x.y\<close>
  yields \<open>"indigo-stubs.x.y"\<close>, and no directory yields \<open>"indigo-stubs.x"\<close>.
\<close>

theorem parent_order_counterexample:
  "fst (list_packages (project [(''indigo-stubs'', dotted_dir_tree)]) []) ! 1
     = ''indigo-stubs.x'' @ ''.'' @ ''y''
   \<and> ''indigo-stubs.x'' \<notin> set (fst (list_packages (project [(''indigo-stubs'', dotted_dir_tree)]) []))"
  by code_simp

end
